theory Spec2Isabelle
  imports Main
begin

section \<open>Values and the field-state tree\<close>

text \<open>
  The identity of an object: \<open>Given\<close> for objects that come from outside the module
  (the form, the resolvers), \<open>Made\<close> for the maps the module's own \<open>setIn\<close> calls create,
  numbered by a counter that only grows.
\<close>

datatype oid = Given nat | Made nat

text \<open>
  The values a field property can hold: the primitives, nested maps and deferred values
  (arrays and functions are left out). \<open>MapV\<close> is an Immutable.js \<open>Map\<close> with string
  keys: the object's identity and its entries, kept as an association list in insertion
  order (every key occurs at most once in a map built with \<open>map_set\<close>). \<open>Deferred i v\<close>
  is the promise \<open>i\<close>, which fulfils with \<open>v\<close>. The field-state tree
  \<open>form.state.fields\<close> is itself such a map, nested along field paths; path segments and
  property names are strings.
\<close>

datatype val = Undefined | Null | Bool bool | Num int | Str string
  | MapV oid "(string \<times> val) list" | Deferred oid val

text \<open>JavaScript's \<open>ToBoolean\<close>, the test behind \<open>!!v\<close> and \<open>if (v)\<close>.\<close>

fun truthy :: "val \<Rightarrow> bool" where
  "truthy Undefined = False"
| "truthy Null = False"
| "truthy (Bool b) = b"
| "truthy (Num n) = (n \<noteq> 0)"
| "truthy (Str s) = (s \<noteq> [])"
| "truthy (MapV i m) = True"
| "truthy (Deferred i v) = True"

text \<open>What an \<open>await\<close> expression yields for a value: a deferred value is unwrapped.\<close>

fun awaited :: "val \<Rightarrow> val" where
  "awaited (Deferred i v) = awaited v"
| "awaited Undefined = Undefined"
| "awaited Null = Null"
| "awaited (Bool b) = Bool b"
| "awaited (Num n) = Num n"
| "awaited (Str s) = Str s"
| "awaited (MapV i m) = MapV i m"

text \<open>
  JavaScript's \<open>===\<close> on these values: primitives are compared by value, objects (maps
  and promises) by identity, whatever they hold.
\<close>

fun strict_eq :: "val \<Rightarrow> val \<Rightarrow> bool" where
  "strict_eq (MapV i m) (MapV j n) = (i = j)"
| "strict_eq (Deferred i v) (Deferred j u) = (i = j)"
| "strict_eq (MapV i m) b = False"
| "strict_eq a (MapV j n) = False"
| "strict_eq (Deferred i v) b = False"
| "strict_eq a (Deferred j u) = False"
| "strict_eq a b = (a = b)"

datatype error = TypeError string | InvalidKeyPath | Thrown val | Rejected val

subsection \<open>Immutable.js: \<open>get\<close>, \<open>has\<close>, \<open>getIn\<close>, \<open>hasIn\<close>, \<open>setIn\<close>\<close>

text \<open>
  \<open>nested && nested.get ? nested.get(key, NOT_SET) : NOT_SET\<close>, with \<open>None\<close> for the
  library's \<open>NOT_SET\<close> sentinel: only a map has a \<open>get\<close>.
\<close>

fun get_opt :: "val \<Rightarrow> string \<Rightarrow> val option" where
  "get_opt (MapV i m) k = map_of m k"
| "get_opt Undefined k = None"
| "get_opt Null k = None"
| "get_opt (Bool b) k = None"
| "get_opt (Num n) k = None"
| "get_opt (Str s) k = None"
| "get_opt (Deferred i v) k = None"

text \<open>\<open>m.get(key)\<close> on a map: \<open>undefined\<close> for a missing key.\<close>

definition map_get :: "(string \<times> val) list \<Rightarrow> string \<Rightarrow> val" where
  "map_get m k = (case map_of m k of None \<Rightarrow> Undefined | Some v \<Rightarrow> v)"

fun getIn_opt :: "val \<Rightarrow> string list \<Rightarrow> val option" where
  "getIn_opt v [] = Some v"
| "getIn_opt v (k # ks) = (case get_opt v k of None \<Rightarrow> None | Some w \<Rightarrow> getIn_opt w ks)"

definition getIn :: "val \<Rightarrow> string list \<Rightarrow> val" where
  "getIn v ks = (case getIn_opt v ks of None \<Rightarrow> Undefined | Some w \<Rightarrow> w)"

definition hasIn :: "val \<Rightarrow> string list \<Rightarrow> bool" where
  "hasIn v ks = (case getIn_opt v ks of None \<Rightarrow> False | Some w \<Rightarrow> True)"

text \<open>
  \<open>x.has(propName)\<close> where \<open>x\<close> came out of \<open>getIn\<close>: a map answers, any other value has
  no \<open>has\<close> method and the call throws a \<open>TypeError\<close>.
\<close>

fun has :: "val \<Rightarrow> string \<Rightarrow> error + bool" where
  "has (MapV i m) k = Inr (case map_of m k of None \<Rightarrow> False | Some v \<Rightarrow> True)"
| "has Undefined k = Inl (TypeError ''has'')"
| "has Null k = Inl (TypeError ''has'')"
| "has (Bool b) k = Inl (TypeError ''has'')"
| "has (Num n) k = Inl (TypeError ''has'')"
| "has (Str s) k = Inl (TypeError ''has'')"
| "has (Deferred i v) k = Inl (TypeError ''has'')"

text \<open>\<open>m.set(k, v)\<close>: an existing key keeps its place, a new key goes last.\<close>

fun map_set :: "(string \<times> 'a) list \<Rightarrow> string \<Rightarrow> 'a \<Rightarrow> (string \<times> 'a) list" where
  "map_set [] k v = [(k, v)]"
| "map_set ((k', v') # m) k v = (if k' = k then (k, v) # m else (k', v') # map_set m k v)"

text \<open>
  \<open>setIn(keyPath, v)\<close>, the library's \<open>updateInDeepMap\<close>, with the counter \<open>h\<close> of the
  maps made so far. A path that runs through an existing value that is not a map fails
  the library's invariant (\<open>invalid keyPath\<close>). On the way back, a level whose entry
  comes back as the very value it held (\<open>nextUpdated === nextExisting\<close>) is returned as
  it is; otherwise \<open>set\<close> makes a new map, from the existing one or from the empty map
  where the level was missing.
\<close>

fun updateInDeepMap :: "val option \<Rightarrow> string list \<Rightarrow> val \<Rightarrow> nat \<Rightarrow> (error + val) \<times> nat" where
  "updateInDeepMap existing [] v h = (Inr v, h)"
| "updateInDeepMap existing (k # ks) v h =
     (case existing of
        None \<Rightarrow>
          (case updateInDeepMap None ks v h of
             (Inl e, h') \<Rightarrow> (Inl e, h')
           | (Inr u, h') \<Rightarrow> (Inr (MapV (Made h') [(k, u)]), Suc h'))
      | Some (MapV i m) \<Rightarrow>
          (case updateInDeepMap (map_of m k) ks v h of
             (Inl e, h') \<Rightarrow> (Inl e, h')
           | (Inr u, h') \<Rightarrow>
               if (case map_of m k of None \<Rightarrow> False | Some old \<Rightarrow> strict_eq u old)
               then (Inr (MapV i m), h')
               else (Inr (MapV (Made h') (map_set m k u)), Suc h'))
      | Some other \<Rightarrow> (Inl InvalidKeyPath, h))"

definition setIn :: "val \<Rightarrow> string list \<Rightarrow> val \<Rightarrow> nat \<Rightarrow> (error + val) \<times> nat" where
  "setIn flds keyPath v h = updateInDeepMap (Some flds) keyPath v h"

subsection \<open>Paths as strings: \<open>join('.')\<close> and \<open>split('.')\<close>\<close>

fun join_dot :: "string list \<Rightarrow> string" where
  "join_dot [] = []"
| "join_dot [x] = x"
| "join_dot (x # y # ys) = x @ ''.'' @ join_dot (y # ys)"

fun split_dot :: "string \<Rightarrow> string list" where
  "split_dot [] = [[]]"
| "split_dot (c # cs) =
     (if c = CHR ''.'' then [] # split_dot cs
      else (case split_dot cs of [] \<Rightarrow> [[c]] | w # ws \<Rightarrow> (c # w) # ws))"

section \<open>Resolvers, the form and its collaborators\<close>

text \<open>
  A resolver is user code that calls \<open>subscribe\<close> some number of times, each call with a
  key path, and goes on with the value the call returned, until it returns a value or
  throws. Its reads are a function of what \<open>subscribe\<close> answered and of its arguments.
\<close>

datatype prog = Return val | Throw val | Subscribe "string list" "val \<Rightarrow> prog"

text \<open>
  The \<open>fieldProps\<close> argument of a resolver: the subscriber's Immutable map during
  analysis, \<open>fieldProps.toJS()\<close> in a change handler. Both carry the field path and the
  plain properties.
\<close>

datatype propsArg =
    ImmutableProps "string list" "(string \<times> val) list"
  | PlainProps "string list" "(string \<times> val) list"

text \<open>The promise \<open>form.updateField\<close> returns: fulfilled with \<open>{ nextFieldProps }\<close>, or rejected.\<close>

datatype updateResult = Fulfilled val | RejectedWith val

text \<open>
  The form as a handler sees it when it runs: \<open>form.state.fields\<close>, \<open>form.context\<close>, and
  what \<open>form.updateField\<close> answers (the form component is a collaborator, not part of
  this module).
\<close>

record form =
  state_fields :: val
  formContext :: val
  updateField :: "string list \<Rightarrow> (string \<times> val) list \<Rightarrow> updateResult"

record resolverArgs =
  argFieldProps :: propsArg
  argForm :: form

type_synonym resolver = "resolverArgs \<Rightarrow> val \<Rightarrow> prog"

text \<open>
  The subscriber's \<open>fieldProps\<close> map: the entries the module reads by name
  (\<open>fieldPath\<close>, \<open>valuePropName\<close>, \<open>reactiveProps\<close>) and its plain properties, among
  them the one \<open>valuePropName\<close> names.
\<close>

record fieldProps =
  fieldPath :: "string list"
  valuePropName :: string
  reactiveProps :: "(string \<times> resolver) list option"
  props :: "(string \<times> val) list"

record validateArgs =
  force :: bool
  vFieldPath :: "string list"
  vFieldProps :: val
  forceProps :: bool
  vFields :: val

text \<open>
  What the module does to the outside, in order: diagnostics and console output, calls of
  the form's \<open>updateField\<close> and \<open>validateField\<close>, removal of a listener from the event
  emitter, and the rejection of an async handler's promise.
\<close>

datatype effect =
    Warn string "string list"
  | LogInitialValue val
  | LogDelegated
  | UpdateField "string list" "(string \<times> val) list"
  | ValidateField validateArgs
  | RemoveListener nat
  | UnhandledRejection error

text \<open>
  Modelled from the spec: \<open>warn\<close> (\<open>utils/warn\<close>) is missing from the sources; it emits the
  diagnostic (format string and arguments) when its condition is false and does nothing else.
\<close>

definition warn :: "bool \<Rightarrow> string \<Rightarrow> string list \<Rightarrow> effect list \<Rightarrow> effect list" where
  "warn condition fmt args t = (if condition then t else t @ [Warn fmt args])"

text \<open>
  Modelled from the spec: \<open>dispatch\<close> (\<open>utils/dispatch\<close>) is missing from the sources; it
  invokes the resolver once with the arguments under the form's context and hands back
  what the resolver returned, as it is.
\<close>

definition dispatch :: "resolver \<Rightarrow> resolverArgs \<Rightarrow> val \<Rightarrow> prog" where
  "dispatch f args ctx = f args ctx"

section \<open>\<open>generateSubscribe\<close> and \<open>analyzeResolver\<close>\<close>

text \<open>
  \<open>generateSubscribe(fields, callback = null)\<close>: without a callback the call resolves;
  with one, the callback runs first (it may change the state \<open>'s\<close> it closes over, or
  throw) and a falsy answer makes \<open>subscribe\<close> return \<open>undefined\<close>.
\<close>

definition generateSubscribe ::
  "val \<Rightarrow> (string list \<Rightarrow> 's \<Rightarrow> (error + bool) \<times> 's) option
     \<Rightarrow> string list \<Rightarrow> 's \<Rightarrow> (error + val) \<times> 's" where
  "generateSubscribe flds callback keyPath s =
     (case (case callback of None \<Rightarrow> (Inr True, s) | Some cb \<Rightarrow> cb keyPath s) of
        (Inl e, s') \<Rightarrow> (Inl e, s')
      | (Inr shouldResolve, s') \<Rightarrow>
          if \<not> shouldResolve then (Inr Undefined, s')
          else (Inr (getIn flds keyPath), s'))"

text \<open>Running a resolver against a \<open>subscribe\<close> function; a throw ends the run.\<close>

primrec run ::
  "(string list \<Rightarrow> 's \<Rightarrow> (error + val) \<times> 's) \<Rightarrow> prog \<Rightarrow> 's \<Rightarrow> (error + val) \<times> 's" where
  "run subscribe (Return v) s = (Inr v, s)"
| "run subscribe (Throw e) s = (Inl (Thrown e), s)"
| "run subscribe (Subscribe keyPath k) s =
     (case subscribe keyPath s of
        (Inl e, s') \<Rightarrow> (Inl e, s')
      | (Inr v, s') \<Rightarrow> run subscribe (k v) s')"

text \<open>
  The state the analysis callback closes over: the local \<open>targetsMap\<close> object (own
  properties in insertion order) and the console the diagnostics go to.
\<close>

record astate =
  targetsMap :: "(string \<times> string list) list"
  console :: "effect list"

text \<open>
  The property names every plain object inherits from \<open>Object.prototype\<close>: reading one of
  them from \<open>targetsMap\<close> gives the inherited function (or the prototype), not \<open>undefined\<close>.
\<close>

definition object_prototype_keys :: "string list" where
  "object_prototype_keys =
     [''constructor'', ''__defineGetter__'', ''__defineSetter__'', ''hasOwnProperty'',
      ''__lookupGetter__'', ''__lookupSetter__'', ''isPrototypeOf'', ''propertyIsEnumerable'',
      ''toString'', ''valueOf'', ''__proto__'', ''toLocaleString'']"

text \<open>
  \<open>const prevProps = targetsMap[gluedPath] || []\<close> followed by \<open>prevProps.includes\<close>:
  an own entry is the recorded list, a missing one the empty list, and an inherited
  member is truthy but has no \<open>includes\<close>, so the call throws.
\<close>

definition prevProps_of :: "(string \<times> string list) list \<Rightarrow> string \<Rightarrow> error + string list" where
  "prevProps_of tm gluedPath =
     (case map_of tm gluedPath of
        Some ps \<Rightarrow> Inr ps
      | None \<Rightarrow>
          if gluedPath \<in> set object_prototype_keys
          then Inl (TypeError ''prevProps.includes is not a function'')
          else Inr [])"

definition invalid_key_path_msg :: string where
  "invalid_key_path_msg =
     ''Failed to resolve a reactive prop `%s` for the field `%s`. Expected to have a '' @
     ''valid key path reference to the subscribed prop, but got: `%s`.''"

definition invalid_prop_name_msg :: string where
  "invalid_prop_name_msg =
     ''Failed to resolve a reactive prop `%s` for the field `%s`. Expected the last parameter '' @
     ''to be a valid prop name, but got: `%s`.''"

text \<open>
  The callback \<open>analyzeResolver\<close> hands to \<open>generateSubscribe\<close> (lines 33 to 58). It
  answers \<open>true\<close> only on the path that records a new property; each bare \<open>return\<close>
  answers \<open>undefined\<close>, which is falsy.
\<close>

definition track ::
  "string \<Rightarrow> string \<Rightarrow> val \<Rightarrow> string list \<Rightarrow> astate \<Rightarrow> (error + bool) \<times> astate" where
  "track rxPropName subscriberPath flds keyPath s =
     (let keyPathLength = length keyPath;
          isValidKeyPath = (keyPathLength > 1);
          s1 = s\<lparr>console := warn isValidKeyPath invalid_key_path_msg
                  [rxPropName, subscriberPath, join_dot keyPath] (console s)\<rparr>
      in if \<not> isValidKeyPath then (Inr False, s1)
         else
           let fieldPath' = take (keyPathLength - 1) keyPath;
               propName = keyPath ! (keyPathLength - 1)
           in case (if hasIn flds fieldPath' then has (getIn flds fieldPath') propName
                    else Inr True) of
                Inl e \<Rightarrow> (Inl e, s1)
              | Inr isValidPropName \<Rightarrow>
                  let s2 = s1\<lparr>console := warn isValidPropName invalid_prop_name_msg
                             [rxPropName, subscriberPath, propName] (console s1)\<rparr>
                  in if \<not> isValidPropName then (Inr False, s2)
                     else
                       let gluedPath = join_dot fieldPath'
                       in case prevProps_of (targetsMap s2) gluedPath of
                            Inl e \<Rightarrow> (Inl e, s2)
                          | Inr prevProps \<Rightarrow>
                              if propName \<in> set prevProps then (Inr False, s2)
                              else
                                let nextProps = prevProps @ [propName]
                                in (Inr True,
                                    s2\<lparr>targetsMap := map_set (targetsMap s2) gluedPath nextProps\<rparr>))"

text \<open>
  \<open>analyzeResolver\<close>: a fresh \<open>targetsMap\<close>, one run of the resolver with the tracking
  \<open>subscribe\<close>, and the pair of the map and the value. The console is the only thing
  that outlives the call.
\<close>

definition analyzeResolver ::
  "string \<Rightarrow> resolver \<Rightarrow> fieldProps \<Rightarrow> val \<Rightarrow> form \<Rightarrow> effect list
     \<Rightarrow> (error + ((string \<times> string list) list \<times> val)) \<times> effect list" where
  "analyzeResolver rxPropName resolver fp flds frm t =
     (let subscriberPath = join_dot (fieldPath fp);
          subscribe = generateSubscribe flds (Some (track rxPropName subscriberPath flds))
      in case run subscribe
                (dispatch resolver
                   \<lparr>argFieldProps = ImmutableProps (fieldPath fp) (props fp), argForm = frm\<rparr>
                   (formContext frm))
                \<lparr>targetsMap = [], console = t\<rparr> of
           (Inl e, s) \<Rightarrow> (Inl e, console s)
         | (Inr initialValue, s) \<Rightarrow> (Inr (targetsMap s, initialValue), console s))"


section \<open>The event emitter, change observers and delegated binders\<close>

text \<open>
  A listener on \<open>form.eventEmitter\<close>, with what its closure captured. A delegated binder
  waits for the registration event of a target field; a change observer is the
  subscription \<open>createObserver\<close> returns (its property list is \<open>None\<close> when the caller
  passed \<open>undefined\<close>).
\<close>

datatype listener =
    DelegatedBinder string "string list" string string resolver fieldProps
  | ChangeObserver "string list" "string list option" string resolver fieldProps

text \<open>
  The emitter's listeners with the identifier to give next, the counter of the maps the
  module has made, and the effects so far.
\<close>

record world =
  listeners :: "(nat \<times> listener) list"
  nextId :: nat
  nextOid :: nat
  trace :: "effect list"

text \<open>The object a change handler receives; \<open>shouldValidate\<close> is \<open>Undefined\<close> when absent.\<close>

record handlerEvent =
  nextContextProps :: val
  shouldValidate :: val

text \<open>
  The two callbacks \<open>createObserver\<close> hands to \<open>addPropsObserver\<close> (lines 81 to 86), on
  the entries of the two snapshots: \<open>get\<close> of the property in each, compared with
  \<open>!==\<close>, so that a map or a promise that was made anew differs from the one before even
  where both hold the same.
\<close>

definition predicate :: "string \<Rightarrow> (string \<times> val) list \<Rightarrow> (string \<times> val) list \<Rightarrow> bool" where
  "predicate propName prevContextProps' nextContextProps' =
     (\<not> strict_eq (map_get prevContextProps' propName) (map_get nextContextProps' propName))"

definition getNextValue :: "string \<Rightarrow> (string \<times> val) list \<Rightarrow> val" where
  "getNextValue propName nextContextProps' = map_get nextContextProps' propName"

text \<open>
  Modelled from the spec: \<open>addPropsObserver\<close> (\<open>rxUtils/addPropsObserver\<close>) is missing from
  the sources. The listener it sets up is scoped to the target field path and to the set
  of tracked property names; a change of that field qualifies when the predicate holds
  for one tracked name, and one qualifying change is handed to the subscriber once. A
  missing list tracks no name, as an empty one.
\<close>

definition tracked :: "string list option \<Rightarrow> string list" where
  "tracked targetProps = (case targetProps of None \<Rightarrow> [] | Some ps \<Rightarrow> ps)"

definition qualifies ::
  "string list option \<Rightarrow> (string \<times> val) list \<Rightarrow> (string \<times> val) list \<Rightarrow> bool" where
  "qualifies targetProps prevContextProps' nextContextProps' =
     list_ex (\<lambda>propName. predicate propName prevContextProps' nextContextProps')
       (tracked targetProps)"

text \<open>
  The async handler \<open>createObserver\<close> subscribes (lines 88 to 113), as the sequence of
  its own actions: the updated tree, the resolver run with a \<open>subscribe\<close> that has no
  callback, the call of \<open>updateField\<close> with the value as the resolver returned it, and,
  once that promise is fulfilled, the call of \<open>validateField\<close>. A throw or a rejection
  ends the handler with a rejected promise. What other handlers do while this one is
  suspended is not interleaved here.
\<close>

definition observer_handler ::
  "string list \<Rightarrow> string \<Rightarrow> resolver \<Rightarrow> fieldProps \<Rightarrow> form \<Rightarrow> handlerEvent
     \<Rightarrow> world \<Rightarrow> world" where
  "observer_handler targetPath rxPropName resolver fp frm ev w =
     (let subscriberPath = fieldPath fp;
          shouldValidate' =
            (if shouldValidate ev = Undefined then Bool True else shouldValidate ev)
      in case setIn (state_fields frm) targetPath (nextContextProps ev) (nextOid w) of
           (Inl e, h) \<Rightarrow> w\<lparr>nextOid := h, trace := trace w @ [UnhandledRejection e]\<rparr>
         | (Inr nextFields, h) \<Rightarrow>
             (case run (generateSubscribe nextFields None)
                     (dispatch resolver
                        \<lparr>argFieldProps = PlainProps (fieldPath fp) (props fp), argForm = frm\<rparr>
                        (formContext frm)) () of
                (Inl e, u) \<Rightarrow> w\<lparr>nextOid := h, trace := trace w @ [UnhandledRejection e]\<rparr>
              | (Inr nextPropValue, u) \<Rightarrow>
                  let t1 = trace w @ [UpdateField subscriberPath [(rxPropName, nextPropValue)]]
                  in case updateField frm subscriberPath [(rxPropName, nextPropValue)] of
                       RejectedWith r \<Rightarrow>
                         w\<lparr>nextOid := h, trace := t1 @ [UnhandledRejection (Rejected r)]\<rparr>
                     | Fulfilled updatedFieldProps \<Rightarrow>
                         if truthy shouldValidate'
                         then w\<lparr>nextOid := h,
                                trace := t1 @ [ValidateField
                                  \<lparr>force = True, vFieldPath = subscriberPath,
                                   vFieldProps = updatedFieldProps, forceProps = True,
                                   vFields = nextFields\<rparr>]\<rparr>
                         else w\<lparr>nextOid := h, trace := t1\<rparr>))"

text \<open>
  \<open>createObserver\<close>: the subscription is a new listener on the emitter; the handle is
  its identifier.
\<close>

definition createObserver ::
  "string list \<Rightarrow> string list option \<Rightarrow> string \<Rightarrow> resolver \<Rightarrow> fieldProps \<Rightarrow> world
     \<Rightarrow> nat \<times> world" where
  "createObserver targetPath targetProps rxPropName resolver fp w =
     (nextId w,
      w\<lparr>listeners :=
           listeners w @ [(nextId w, ChangeObserver targetPath targetProps rxPropName resolver fp)],
        nextId := Suc (nextId w)\<rparr>)"

text \<open>
  The handler of a delegated binder (lines 159 to 177). \<open>gluedPath\<close> is a key the first
  analysis stored, hence not an inherited member, and \<open>targetsMap[gluedPath]\<close> reads an
  own entry or \<open>undefined\<close>. \<open>subscription.next\<close> hands the event to the new observer's
  handler directly. An exception of the re-analysis leaves the handler at that point.
\<close>

definition delegated_handler ::
  "nat \<Rightarrow> string list \<Rightarrow> string \<Rightarrow> string \<Rightarrow> resolver \<Rightarrow> fieldProps \<Rightarrow> form \<Rightarrow> val \<Rightarrow> world
     \<Rightarrow> error option \<times> world" where
  "delegated_handler lid targetPath gluedPath rxPropName resolver fp frm delegatedField w =
     (let w1 = w\<lparr>listeners := filter (\<lambda>il. fst il \<noteq> lid) (listeners w),
                 trace := trace w @ [RemoveListener lid]\<rparr>;
          w2 = w1\<lparr>trace := trace w1 @ [LogDelegated]\<rparr>;
          nextFields = state_fields frm
      in case analyzeResolver rxPropName resolver fp nextFields frm (trace w2) of
           (Inl e, t) \<Rightarrow> (Some e, w2\<lparr>trace := t\<rparr>)
         | (Inr (tm, initialValue), t) \<Rightarrow>
             let targetProps = map_of tm gluedPath;
                 shouldValidate' = Bool (truthy (map_get (props fp) (valuePropName fp)));
                 (subscription, w3) =
                    createObserver targetPath targetProps rxPropName resolver fp (w2\<lparr>trace := t\<rparr>)
             in (None,
                 observer_handler targetPath rxPropName resolver fp frm
                   \<lparr>nextContextProps = delegatedField, shouldValidate = shouldValidate'\<rparr> w3))"

text \<open>
  \<open>emit(eventName, payload)\<close> for a registration event: the listeners on that name at
  the time of the call are run in order, one that has been removed meanwhile is skipped,
  and an exception ends the emission.
\<close>

fun deliver_registered ::
  "(nat \<times> listener) list \<Rightarrow> form \<Rightarrow> val \<Rightarrow> world \<Rightarrow> error option \<times> world" where
  "deliver_registered [] frm payload w = (None, w)"
| "deliver_registered ((lid, ChangeObserver tp ps rx res fp) # rest) frm payload w =
     deliver_registered rest frm payload w"
| "deliver_registered ((lid, DelegatedBinder ev tp gp rx res fp) # rest) frm payload w =
     (if lid \<in> fst ` set (listeners w)
      then (case delegated_handler lid tp gp rx res fp frm payload w of
              (Some e, w') \<Rightarrow> (Some e, w')
            | (None, w') \<Rightarrow> deliver_registered rest frm payload w')
      else deliver_registered rest frm payload w)"

fun listens_registered :: "string \<Rightarrow> listener \<Rightarrow> bool" where
  "listens_registered eventName (DelegatedBinder ev tp gp rx res fp) = (ev = eventName)"
| "listens_registered eventName (ChangeObserver tp ps rx res fp) = False"

definition emit_registered :: "string \<Rightarrow> form \<Rightarrow> val \<Rightarrow> world \<Rightarrow> error option \<times> world" where
  "emit_registered eventName frm payload w =
     deliver_registered (filter (\<lambda>il. listens_registered eventName (snd il)) (listeners w))
       frm payload w"

text \<open>
  A change of the properties of the field at \<open>path\<close>, from the snapshot with the entries
  \<open>prev\<close> to the map \<open>nid\<close> with the entries \<open>next\<close>: every change observer scoped to that
  path whose filter the change passes gets the event.
\<close>

fun deliver_change ::
  "(nat \<times> listener) list \<Rightarrow> string list \<Rightarrow> (string \<times> val) list \<Rightarrow> oid
     \<Rightarrow> (string \<times> val) list \<Rightarrow> val \<Rightarrow> form \<Rightarrow> world \<Rightarrow> world" where
  "deliver_change [] path prev nid next sv frm w = w"
| "deliver_change ((lid, DelegatedBinder ev tp gp rx res fp) # rest) path prev nid next sv frm w =
     deliver_change rest path prev nid next sv frm w"
| "deliver_change ((lid, ChangeObserver tp ps rx res fp) # rest) path prev nid next sv frm w =
     deliver_change rest path prev nid next sv frm
       (if tp = path \<and> qualifies ps prev next
        then observer_handler tp rx res fp frm
               \<lparr>nextContextProps = MapV nid next, shouldValidate = sv\<rparr> w
        else w)"

definition emit_change ::
  "string list \<Rightarrow> (string \<times> val) list \<Rightarrow> oid \<Rightarrow> (string \<times> val) list \<Rightarrow> val \<Rightarrow> form
     \<Rightarrow> world \<Rightarrow> world" where
  "emit_change path prev nid next sv frm w =
     deliver_change (listeners w) path prev nid next sv frm w"

section \<open>\<open>createSubscriptions\<close>\<close>

text \<open>
  \<open>Object.keys\<close> of the targets map: keys that are array indices come first, in numeric
  order, the others follow in insertion order.
\<close>

definition is_digit :: "char \<Rightarrow> bool" where
  "is_digit c = (c \<in> set ''0123456789'')"

definition digits_value :: "string \<Rightarrow> int" where
  "digits_value s = foldl (\<lambda>n c. 10 * n + (of_char c - 48)) 0 s"

definition is_array_index :: "string \<Rightarrow> bool" where
  "is_array_index s =
     (s \<noteq> [] \<and> list_all is_digit s \<and> (s = ''0'' \<or> hd s \<noteq> CHR ''0'')
      \<and> digits_value s < 4294967295)"

definition object_keys :: "(string \<times> 'a) list \<Rightarrow> string list" where
  "object_keys obj =
     (let ks = map fst obj
      in sort_key digits_value (filter is_array_index ks)
         @ filter (\<lambda>k. \<not> is_array_index k) ks)"

text \<open>
  The body of the inner \<open>forEach\<close> (lines 140 to 178), for one key of the targets map.
  \<open>camelize\<close> (\<open>utils/camelize\<close>) is missing from the sources and is a parameter: it
  gives the event name for the path segments followed by \<open>registered\<close>.
\<close>

definition subscribeTarget ::
  "(string list \<Rightarrow> string) \<Rightarrow> string \<Rightarrow> resolver \<Rightarrow> fieldProps \<Rightarrow> val
     \<Rightarrow> (string \<times> string list) list \<Rightarrow> world \<Rightarrow> string \<Rightarrow> world" where
  "subscribeTarget camelize rxPropName resolver fp flds tm w gluedPath =
     (let targetPath = split_dot gluedPath;
          isTargetMounted = hasIn flds targetPath
      in if isTargetMounted
         then snd (createObserver targetPath (map_of tm gluedPath) rxPropName resolver fp w)
         else
           let fieldRegisteredEvent = camelize (targetPath @ [''registered''])
           in w\<lparr>listeners :=
                  listeners w @
                    [(nextId w, DelegatedBinder fieldRegisteredEvent targetPath gluedPath
                                  rxPropName resolver fp)],
                nextId := Suc (nextId w)\<rparr>)"

text \<open>The body of the outer \<open>forEach\<close> (lines 125 to 179), for one reactive property.\<close>

definition subscribeProp ::
  "(string list \<Rightarrow> string) \<Rightarrow> fieldProps \<Rightarrow> val \<Rightarrow> form \<Rightarrow> string \<times> resolver \<Rightarrow> world
     \<Rightarrow> error option \<times> world" where
  "subscribeProp camelize fp flds frm entry w =
     (let rxPropName = fst entry; resolver = snd entry
      in case analyzeResolver rxPropName resolver fp flds frm (trace w) of
           (Inl e, t) \<Rightarrow> (Some e, w\<lparr>trace := t\<rparr>)
         | (Inr (tm, initialValue), t) \<Rightarrow>
             let w1 = w\<lparr>trace := t @ [LogInitialValue initialValue,
                                       UpdateField (fieldPath fp) [(rxPropName, initialValue)]]\<rparr>;
                 targetsPaths = object_keys tm
             in if length targetsPaths = 0 then (None, w1)
                else (None, foldl (subscribeTarget camelize rxPropName resolver fp flds tm)
                              w1 targetsPaths))"

fun forEachProp ::
  "(string list \<Rightarrow> string) \<Rightarrow> fieldProps \<Rightarrow> val \<Rightarrow> form \<Rightarrow> (string \<times> resolver) list \<Rightarrow> world
     \<Rightarrow> error option \<times> world" where
  "forEachProp camelize fp flds frm [] w = (None, w)"
| "forEachProp camelize fp flds frm (entry # rest) w =
     (case subscribeProp camelize fp flds frm entry w of
        (Some e, w') \<Rightarrow> (Some e, w')
      | (None, w') \<Rightarrow> forEachProp camelize fp flds frm rest w')"

definition createSubscriptions ::
  "(string list \<Rightarrow> string) \<Rightarrow> fieldProps \<Rightarrow> val \<Rightarrow> form \<Rightarrow> world \<Rightarrow> error option \<times> world" where
  "createSubscriptions camelize fp flds frm w =
     (case reactiveProps fp of
        None \<Rightarrow> (None, w)
      | Some rxProps \<Rightarrow> forEachProp camelize fp flds frm rxProps w)"


section \<open>Notions used in the statements\<close>

text \<open>The diagnostics among the effects.\<close>

fun is_warn :: "effect \<Rightarrow> bool" where
  "is_warn (Warn f a) = True"
| "is_warn (LogInitialValue v) = False"
| "is_warn LogDelegated = False"
| "is_warn (UpdateField p q) = False"
| "is_warn (ValidateField a) = False"
| "is_warn (RemoveListener n) = False"
| "is_warn (UnhandledRejection e) = False"

text \<open>
  A well-formed targets map: every glued path is a key once, and no list names a
  property twice.
\<close>

definition deps_ok :: "(string \<times> string list) list \<Rightarrow> bool" where
  "deps_ok tm = (distinct (map fst tm) \<and> list_all (\<lambda>entry. distinct (snd entry)) tm)"

text \<open>
  What reaches the module from outside once the subscriptions exist: the emission of a
  registration event, or a change of a field's properties, each with the form as it is
  at that moment. An exception of a handler goes to the caller of \<open>emit\<close>; the world
  keeps what the handlers did up to that point.
\<close>

datatype stimulus =
    RegisteredEvent string form val
  | PropsChange "string list" "(string \<times> val) list" oid "(string \<times> val) list" val form

fun react :: "stimulus \<Rightarrow> world \<Rightarrow> world" where
  "react (RegisteredEvent eventName frm payload) w = snd (emit_registered eventName frm payload w)"
| "react (PropsChange path prev nid next sv frm) w = emit_change path prev nid next sv frm w"

definition run_events :: "stimulus list \<Rightarrow> world \<Rightarrow> world" where
  "run_events evs w = foldl (\<lambda>w' e. react e w') w evs"

text \<open>
  Listener identifiers are handed out in increasing order: every registered one is below
  the next one to be given.
\<close>

definition ids_fresh :: "world \<Rightarrow> bool" where
  "ids_fresh w = list_all (\<lambda>il. fst il < nextId w) (listeners w)"

text \<open>
  How often the handler body of the delegated binder \<open>lid\<close> has run: the handler starts
  by removing its own listener, and nothing else in the module removes a listener, so
  these are the \<open>RemoveListener lid\<close> entries of the trace. \<open>pending\<close> is 1 while the
  listener is registered.
\<close>

definition executions :: "nat \<Rightarrow> world \<Rightarrow> nat" where
  "executions lid w = count_list (trace w) (RemoveListener lid)"

definition pending :: "nat \<Rightarrow> world \<Rightarrow> nat" where
  "pending lid w = (if lid \<in> fst ` set (listeners w) then 1 else 0)"

text \<open>
  The listener \<open>createSubscriptions\<close> makes for one key of a targets map (lines 141 to
  157): its path is the key split at the dots; it is a change observer when the tree has
  that path and a delegated binder otherwise. The listeners for one reactive property
  are one per key of the map its analysis gives, in the order of \<open>Object.keys\<close>.
\<close>

definition listener_for ::
  "(string list \<Rightarrow> string) \<Rightarrow> string \<Rightarrow> resolver \<Rightarrow> fieldProps \<Rightarrow> val
     \<Rightarrow> (string \<times> string list) list \<Rightarrow> string \<Rightarrow> listener" where
  "listener_for camelize rx res fp flds tm g =
     (if hasIn flds (split_dot g)
      then ChangeObserver (split_dot g) (map_of tm g) rx res fp
      else DelegatedBinder (camelize (split_dot g @ [''registered''])) (split_dot g) g rx res fp)"

definition listeners_for ::
  "(string list \<Rightarrow> string) \<Rightarrow> fieldProps \<Rightarrow> val \<Rightarrow> form \<Rightarrow> string \<times> resolver \<Rightarrow> listener list" where
  "listeners_for camelize fp flds frm entry =
     (case fst (analyzeResolver (fst entry) (snd entry) fp flds frm []) of
        Inl e \<Rightarrow> []
      | Inr (tm, v) \<Rightarrow>
          map (listener_for camelize (fst entry) (snd entry) fp flds tm) (object_keys tm))"

text \<open>
  The key paths a resolver hands to \<open>subscribe\<close> in the course of one run, in order, and
  those of one call of \<open>analyzeResolver\<close>. A key path is accepted by the callback when it
  has a property name after a field path and, where the target field is in the tree, that
  field declares the property. \<open>recorded\<close> lists the target/property pairs a targets map
  holds.
\<close>

primrec subscribed ::
  "(string list \<Rightarrow> 's \<Rightarrow> (error + val) \<times> 's) \<Rightarrow> prog \<Rightarrow> 's \<Rightarrow> string list list" where
  "subscribed subscribe (Return v) s = []"
| "subscribed subscribe (Throw e) s = []"
| "subscribed subscribe (Subscribe keyPath k) s =
     keyPath # (case subscribe keyPath s of
                  (Inl e, s') \<Rightarrow> []
                | (Inr v, s') \<Rightarrow> subscribed subscribe (k v) s')"

definition analysis_calls ::
  "string \<Rightarrow> resolver \<Rightarrow> fieldProps \<Rightarrow> val \<Rightarrow> form \<Rightarrow> effect list \<Rightarrow> string list list" where
  "analysis_calls rxPropName resolver fp flds frm t =
     subscribed (generateSubscribe flds (Some (track rxPropName (join_dot (fieldPath fp)) flds)))
       (dispatch resolver
          \<lparr>argFieldProps = ImmutableProps (fieldPath fp) (props fp), argForm = frm\<rparr>
          (formContext frm))
       \<lparr>targetsMap = [], console = t\<rparr>"

definition accepted :: "val \<Rightarrow> string list \<Rightarrow> bool" where
  "accepted flds keyPath =
     (1 < length keyPath \<and>
      (if hasIn flds (butlast keyPath)
       then has (getIn flds (butlast keyPath)) (last keyPath) = Inr True
       else True))"

definition recorded :: "(string \<times> string list) list \<Rightarrow> (string \<times> string) list" where
  "recorded tm = concat (map (\<lambda>entry. map (Pair (fst entry)) (snd entry)) tm)"

section \<open>A small form: field \<open>a\<close> is registered, field \<open>b\<close> subscribes\<close>

definition example_fields :: val where
  "example_fields = MapV (Given 0) [(''a'', MapV (Given 1) [(''value'', Str ''x'')])]"

definition example_form :: form where
  "example_form =
     \<lparr>state_fields = example_fields, formContext = Undefined,
      updateField = (\<lambda>path patch. Fulfilled (MapV (Given 9) patch))\<rparr>"

definition example_resolver :: resolver where
  "example_resolver args ctx = Subscribe [''a'', ''value''] (\<lambda>v. Return v)"

definition twice_resolver :: resolver where
  "twice_resolver args ctx =
     Subscribe [''a'', ''value''] (\<lambda>v. Subscribe [''a'', ''value''] (\<lambda>u. Return u))"

definition example_subscriber :: fieldProps where
  "example_subscriber =
     \<lparr>fieldPath = [''b''], valuePropName = ''value'',
      reactiveProps = Some [(''label'', example_resolver)],
      props = [(''value'', Str [])]\<rparr>"

text \<open>
  A resolver whose result is deferred, the world in which \<open>b\<close> waits for the
  registration of \<open>a\<close>, and a form in which \<open>a\<close> has registered without a \<open>value\<close>
  property.
\<close>

definition deferred_resolver :: resolver where
  "deferred_resolver args ctx =
     Subscribe [''a'', ''value''] (\<lambda>v. Return (Deferred (Given 7) v))"

definition pending_world :: world where
  "pending_world =
     \<lparr>listeners = [(0, DelegatedBinder ''aRegistered'' [''a''] ''a'' ''label''
                         example_resolver example_subscriber)],
      nextId = 1, nextOid = 0, trace = []\<rparr>"

definition bare_form :: form where
  "bare_form =
     \<lparr>state_fields = MapV (Given 0) [(''a'', MapV (Given 1) [(''name'', Str ''n'')])],
      formContext = Undefined,
      updateField = (\<lambda>path patch. Fulfilled (MapV (Given 9) patch))\<rparr>"

text \<open>
  A form in which the registered field is named \<open>a.b\<close>, with a subscriber whose resolver
  reads its \<open>value\<close>.
\<close>

definition dotted_fields :: val where
  "dotted_fields = MapV (Given 0) [(''a.b'', MapV (Given 1) [(''value'', Str ''x'')])]"

definition dotted_form :: form where
  "dotted_form =
     \<lparr>state_fields = dotted_fields, formContext = Undefined,
      updateField = (\<lambda>path patch. Fulfilled (MapV (Given 9) patch))\<rparr>"

definition dotted_resolver :: resolver where
  "dotted_resolver args ctx = Subscribe [''a.b'', ''value''] (\<lambda>v. Return v)"

definition dotted_subscriber :: fieldProps where
  "dotted_subscriber =
     \<lparr>fieldPath = [''c''], valuePropName = ''value'',
      reactiveProps = Some [(''label'', dotted_resolver)],
      props = [(''value'', Str [])]\<rparr>"

text \<open>
  The form at the moment \<open>a\<close> registers, after the user has typed into \<open>b\<close>: the tree
  holds \<open>b\<close> with the value \<open>typed\<close>, while the properties \<open>b\<close> subscribed with
  (\<open>example_subscriber\<close>) still have the empty value. \<open>filled_subscriber\<close> is a
  subscriber that had the value when it subscribed.
\<close>

definition typed_form :: form where
  "typed_form =
     \<lparr>state_fields =
        MapV (Given 0)
          [(''b'', MapV (Given 2) [(''value'', Str ''typed'')]),
           (''a'', MapV (Given 1) [(''value'', Str ''x'')])],
      formContext = Undefined,
      updateField = (\<lambda>path patch. Fulfilled (MapV (Given 9) patch))\<rparr>"

definition filled_subscriber :: fieldProps where
  "filled_subscriber =
     \<lparr>fieldPath = [''b''], valuePropName = ''value'',
      reactiveProps = Some [(''label'', example_resolver)],
      props = [(''value'', Str ''typed'')]\<rparr>"

text \<open>
  The world before any subscription, the world in which a subscriber that already had
  its value waits for \<open>a\<close>, and a form in which the \<open>value\<close> of \<open>a\<close> is itself a map.
\<close>

definition idle_world :: world where
  "idle_world = \<lparr>listeners = [], nextId = 0, nextOid = 0, trace = []\<rparr>"

definition filled_world :: world where
  "filled_world =
     \<lparr>listeners = [(0, DelegatedBinder ''aRegistered'' [''a''] ''a'' ''label''
                         example_resolver filled_subscriber)],
      nextId = 1, nextOid = 0, trace = []\<rparr>"

definition options_form :: form where
  "options_form =
     \<lparr>state_fields =
        MapV (Given 0) [(''a'', MapV (Given 1) [(''value'', MapV (Given 3) [])])],
      formContext = Undefined,
      updateField = (\<lambda>path patch. Fulfilled (MapV (Given 9) patch))\<rparr>"

section \<open>Auxiliary facts\<close>

subsection \<open>The targets map\<close>

lemma map_set_keys: "fst ` set (map_set m k v) = insert k (fst ` set m)"
  by (induction m) force+

lemma map_set_distinct: "distinct (map fst m) \<Longrightarrow> distinct (map fst (map_set m k v))"
  by (induction m) (auto simp: map_set_keys)

lemma map_set_all: "list_all P m \<Longrightarrow> P (k, v) \<Longrightarrow> list_all P (map_set m k v)"
  by (induction m) auto

lemma map_of_all: "list_all P m \<Longrightarrow> map_of m k = Some v \<Longrightarrow> P (k, v)"
  by (induction m) (auto split: if_splits)

lemma map_of_map_set: "map_of (map_set m k v) = (map_of m)(k \<mapsto> v)"
  by (induction m) auto

lemma prevProps_of_distinct:
  "deps_ok tm \<Longrightarrow> prevProps_of tm g = Inr ps \<Longrightarrow> distinct ps"
  by (auto simp: prevProps_of_def deps_ok_def split: option.splits if_splits dest: map_of_all)

lemma track_deps_ok:
  "deps_ok (targetsMap s) \<Longrightarrow> deps_ok (targetsMap (snd (track rx sp flds kp s)))"
  by (auto simp: track_def Let_def deps_ok_def map_set_distinct
      intro!: map_set_all dest: prevProps_of_distinct [unfolded deps_ok_def, OF conjI]
      split: sum.splits)

lemma track_console:
  "\<exists>ws. console (snd (track rx sp flds kp s)) = console s @ ws \<and> list_all is_warn ws"
  by (auto simp: track_def Let_def warn_def split: sum.splits)

lemma track_indep:
  "targetsMap s = targetsMap s' \<Longrightarrow>
     fst (track rx sp flds kp s) = fst (track rx sp flds kp s') \<and>
     targetsMap (snd (track rx sp flds kp s)) = targetsMap (snd (track rx sp flds kp s'))"
  by (auto simp: track_def Let_def split: sum.splits)

lemma track_short:
  "length kp \<le> 1 \<Longrightarrow>
     track rx sp flds kp s =
       (Inr False, s\<lparr>console := console s @ [Warn invalid_key_path_msg [rx, sp, join_dot kp]]\<rparr>)"
  by (simp add: track_def Let_def warn_def)


lemma generateSubscribe_snd:
  "snd (generateSubscribe flds (Some cb) kp s) = snd (cb kp s)"
  by (simp add: generateSubscribe_def split: prod.splits sum.splits)

lemma generateSubscribe_fst:
  "fst (generateSubscribe flds (Some cb) kp s) =
     (case fst (cb kp s) of
        Inl e \<Rightarrow> Inl e
      | Inr b \<Rightarrow> Inr (if b then getIn flds kp else Undefined))"
  by (simp add: generateSubscribe_def split: prod.splits sum.splits)

lemma run_invariant:
  assumes step: "\<And>kp s. P s \<Longrightarrow> P (snd (sub kp s))"
  shows "P s \<Longrightarrow> P (snd (run sub p s))"
proof (induction p arbitrary: s)
  case (Subscribe kp k)
  have "P (snd (sub kp s))" using Subscribe.prems by (rule step)
  then show ?case
    using Subscribe.IH by (auto split: prod.splits sum.splits)
qed simp_all

lemma run_related:
  assumes step: "\<And>kp s s'. R s s' \<Longrightarrow>
     fst (sub kp s) = fst (sub kp s') \<and> R (snd (sub kp s)) (snd (sub kp s'))"
  shows "R s s' \<Longrightarrow>
     fst (run sub p s) = fst (run sub p s') \<and> R (snd (run sub p s)) (snd (run sub p s'))"
proof (induction p arbitrary: s s')
  case (Subscribe kp k)
  from step [OF Subscribe.prems, of kp]
  have same: "fst (sub kp s) = fst (sub kp s')"
    and rel: "R (snd (sub kp s)) (snd (sub kp s'))" by simp_all
  show ?case
  proof (cases "fst (sub kp s)")
    case (Inl e)
    with same rel show ?thesis
      by (auto split: prod.splits sum.splits)
  next
    case (Inr v)
    with same Subscribe.IH [OF rangeI rel, of v] show ?thesis
      by (auto split: prod.splits sum.splits)
  qed
qed simp_all


lemma analyzeResolver_unfold:
  "analyzeResolver rx res fp flds frm t =
     (let r = run (generateSubscribe flds (Some (track rx (join_dot (fieldPath fp)) flds)))
                (dispatch res
                   \<lparr>argFieldProps = ImmutableProps (fieldPath fp) (props fp), argForm = frm\<rparr>
                   (formContext frm))
                \<lparr>targetsMap = [], console = t\<rparr>
      in (case fst r of Inl e \<Rightarrow> Inl e | Inr v \<Rightarrow> Inr (targetsMap (snd r), v), console (snd r)))"
  by (simp add: analyzeResolver_def Let_def split: prod.splits sum.splits)


lemma analyzeResolver_indep:
  "fst (analyzeResolver rx res fp flds frm t) = fst (analyzeResolver rx res fp flds frm t')"
proof -
  let ?sub = "generateSubscribe flds (Some (track rx (join_dot (fieldPath fp)) flds))"
  let ?p = "dispatch res
              \<lparr>argFieldProps = ImmutableProps (fieldPath fp) (props fp), argForm = frm\<rparr>
              (formContext frm)"
  have "fst (run ?sub ?p \<lparr>targetsMap = [], console = t\<rparr>)
          = fst (run ?sub ?p \<lparr>targetsMap = [], console = t'\<rparr>)
        \<and> targetsMap (snd (run ?sub ?p \<lparr>targetsMap = [], console = t\<rparr>))
          = targetsMap (snd (run ?sub ?p \<lparr>targetsMap = [], console = t'\<rparr>))"
  proof (rule run_related [where R = "\<lambda>s s'. targetsMap s = targetsMap s'"])
    fix kp and s s' :: astate assume "targetsMap s = targetsMap s'"
    from track_indep [OF this]
    show "fst (?sub kp s) = fst (?sub kp s') \<and>
          targetsMap (snd (?sub kp s)) = targetsMap (snd (?sub kp s'))"
      by (simp only: generateSubscribe_snd generateSubscribe_fst)
  qed simp
  then show ?thesis
    by (simp add: analyzeResolver_unfold Let_def split: sum.splits)
qed

lemma analyzeResolver_console:
  "\<exists>ws. snd (analyzeResolver rx res fp flds frm t) = t @ ws \<and> list_all is_warn ws"
proof -
  let ?sub = "generateSubscribe flds (Some (track rx (join_dot (fieldPath fp)) flds))"
  let ?p = "dispatch res
              \<lparr>argFieldProps = ImmutableProps (fieldPath fp) (props fp), argForm = frm\<rparr>
              (formContext frm)"
  let ?P = "\<lambda>s. \<exists>ws. console s = t @ ws \<and> list_all is_warn ws"
  have step: "?P (snd (?sub kp s))" if "?P s" for kp s
  proof -
    from that obtain ws where ws: "console s = t @ ws" "list_all is_warn ws" by blast
    obtain ws' where ws':
      "console (snd (track rx (join_dot (fieldPath fp)) flds kp s)) = console s @ ws'"
      "list_all is_warn ws'"
      using track_console by blast
    have "console (snd (?sub kp s)) = t @ (ws @ ws')" "list_all is_warn (ws @ ws')"
      using ws ws' by (simp_all add: generateSubscribe_snd)
    then show ?thesis by blast
  qed
  have "?P (snd (run ?sub ?p \<lparr>targetsMap = [], console = t\<rparr>))"
  proof (rule run_invariant [where P = ?P])
    show "?P \<lparr>targetsMap = [], console = t\<rparr>" by simp
  qed (rule step)
  then show ?thesis
    by (simp add: analyzeResolver_unfold Let_def)
qed

lemma analyzeResolver_deps_ok:
  assumes "fst (analyzeResolver rx res fp flds frm t) = Inr (tm, v)"
  shows "deps_ok tm"
proof -
  let ?sub = "generateSubscribe flds (Some (track rx (join_dot (fieldPath fp)) flds))"
  let ?p = "dispatch res
              \<lparr>argFieldProps = ImmutableProps (fieldPath fp) (props fp), argForm = frm\<rparr>
              (formContext frm)"
  have "deps_ok (targetsMap (snd (run ?sub ?p \<lparr>targetsMap = [], console = t\<rparr>)))"
  proof (rule run_invariant [where P = "\<lambda>s. deps_ok (targetsMap s)"])
    show "deps_ok (targetsMap \<lparr>targetsMap = [], console = t\<rparr>)" by (simp add: deps_ok_def)
  qed (simp add: generateSubscribe_snd track_deps_ok)
  with assms show ?thesis
    by (auto simp: analyzeResolver_unfold Let_def split: sum.splits)
qed

lemma take_butlast_last:
  "2 \<le> length kp \<Longrightarrow> take (length kp - 1) kp = butlast kp \<and> kp ! (length kp - 1) = last kp"
  by (cases kp rule: rev_cases) (auto simp: nth_append)

lemma a_not_inherited: "''a'' \<notin> set object_prototype_keys"
  by (simp add: object_prototype_keys_def)

lemma distinct_count_le_one: "distinct ps \<Longrightarrow> count_list ps p \<le> 1"
  by (induction ps) auto

subsection \<open>What \<open>subscribe\<close> returns for a valid path\<close>

text \<open>
  A valid path whose property is new for its target is recorded and the call returns the
  looked-up value; the same path, once recorded, leaves the state alone and the call
  returns \<open>undefined\<close>.
\<close>

lemma new_dependency_resolves:
  assumes "2 \<le> length keyPath"
    and "(if hasIn flds (butlast keyPath) then has (getIn flds (butlast keyPath)) (last keyPath)
          else Inr True) = Inr True"
    and "prevProps_of (targetsMap s) (join_dot (butlast keyPath)) = Inr ps"
    and "last keyPath \<notin> set ps"
  shows "generateSubscribe flds (Some (track rx sp flds)) keyPath s =
           (Inr (getIn flds keyPath),
            s\<lparr>targetsMap :=
                 map_set (targetsMap s) (join_dot (butlast keyPath)) (ps @ [last keyPath])\<rparr>)"
proof -
  have "track rx sp flds keyPath s =
          (Inr True,
           s\<lparr>targetsMap :=
                map_set (targetsMap s) (join_dot (butlast keyPath)) (ps @ [last keyPath])\<rparr>)"
    using assms take_butlast_last [OF assms(1)]
    by (simp add: track_def Let_def warn_def)
  then show ?thesis by (simp add: generateSubscribe_def)
qed

lemma repeated_dependency_unresolved:
  assumes "2 \<le> length keyPath"
    and "(if hasIn flds (butlast keyPath) then has (getIn flds (butlast keyPath)) (last keyPath)
          else Inr True) = Inr True"
    and "map_of (targetsMap s) (join_dot (butlast keyPath)) = Some ps"
    and "last keyPath \<in> set ps"
  shows "generateSubscribe flds (Some (track rx sp flds)) keyPath s = (Inr Undefined, s)"
proof -
  have "track rx sp flds keyPath s = (Inr False, s)"
    using assms take_butlast_last [OF assms(1)]
    by (simp add: track_def Let_def warn_def prevProps_of_def)
  then show ?thesis by (simp add: generateSubscribe_def)
qed

subsection \<open>Glued paths\<close>

lemma split_dot_plain: "CHR ''.'' \<notin> set s \<Longrightarrow> split_dot s = [s]"
  by (induction s) auto

lemma split_dot_segment:
  "CHR ''.'' \<notin> set s \<Longrightarrow> split_dot (s @ CHR ''.'' # r) = s # split_dot r"
  by (induction s) auto

lemma split_dot_join_dot:
  "path \<noteq> [] \<Longrightarrow> list_all (\<lambda>s. CHR ''.'' \<notin> set s) path \<Longrightarrow>
     split_dot (join_dot path) = path"
  by (induction path rule: join_dot.induct) (simp_all add: split_dot_plain split_dot_segment)

lemma b_not_inherited: "''a.b'' \<notin> set object_prototype_keys"
  by (simp add: object_prototype_keys_def)

subsection \<open>What a targets map records\<close>

lemma recorded_member:
  "map_of tm g = Some ps \<Longrightarrow> p \<in> set ps \<Longrightarrow> (g, p) \<in> set (recorded tm)"
  by (induction tm) (auto simp: recorded_def split: if_splits)

lemma recorded_Cons: "recorded (e # tm) = map (Pair (fst e)) (snd e) @ recorded tm"
  by (simp add: recorded_def)

lemma recorded_map_set:
  "set (recorded (map_set tm g ((case map_of tm g of None \<Rightarrow> [] | Some qs \<Rightarrow> qs) @ [p])))
     = insert (g, p) (set (recorded tm))"
proof (induction tm)
  case Nil
  show ?case by (simp add: recorded_def)
next
  case (Cons e tm)
  obtain k qs where e: "e = (k, qs)" by (cases e)
  show ?case
  proof (cases "k = g")
    case True
    then show ?thesis by (auto simp: e recorded_Cons)
  next
    case False
    with Cons.IH show ?thesis by (auto simp: e recorded_Cons)
  qed
qed

lemma prevProps_of_lookup:
  "prevProps_of tm g = Inr ps \<Longrightarrow> (case map_of tm g of None \<Rightarrow> [] | Some qs \<Rightarrow> qs) = ps"
  by (auto simp: prevProps_of_def split: option.splits if_splits)

lemma track_unfold:
  assumes "1 < length kp"
  shows "track rx sp flds kp s =
     (case (if hasIn flds (butlast kp) then has (getIn flds (butlast kp)) (last kp)
            else Inr True) of
        Inl e \<Rightarrow> (Inl e, s)
      | Inr ok \<Rightarrow>
          if \<not> ok
          then (Inr False,
                s\<lparr>console := console s @ [Warn invalid_prop_name_msg [rx, sp, last kp]]\<rparr>)
          else (case prevProps_of (targetsMap s) (join_dot (butlast kp)) of
                  Inl e \<Rightarrow> (Inl e, s)
                | Inr ps \<Rightarrow>
                    if last kp \<in> set ps then (Inr False, s)
                    else (Inr True,
                          s\<lparr>targetsMap :=
                               map_set (targetsMap s) (join_dot (butlast kp))
                                 (ps @ [last kp])\<rparr>)))"
proof -
  have tb: "take (length kp - 1) kp = butlast kp" "kp ! (length kp - 1) = last kp"
    using assms take_butlast_last [of kp] by simp_all
  show ?thesis
    unfolding track_def Let_def tb
    using assms by (simp add: warn_def split: sum.splits)
qed

lemma track_recorded:
  assumes "track rx sp flds kp s = (Inr b, s')"
  shows "set (recorded (targetsMap s')) =
           set (recorded (targetsMap s))
             \<union> (if accepted flds kp then {(join_dot (butlast kp), last kp)} else {})"
proof (cases "1 < length kp")
  case False
  with assms show ?thesis
    by (auto simp: track_def Let_def accepted_def)
next
  case True
  note unf = track_unfold [OF True, of rx sp flds s]
  let ?valid = "if hasIn flds (butlast kp) then has (getIn flds (butlast kp)) (last kp)
                else Inr True"
  from assms obtain ok where ok: "?valid = Inr ok"
    unfolding unf by (cases ?valid) simp_all
  show ?thesis
  proof (cases ok)
    case False
    then have "\<not> accepted flds kp"
      using ok by (auto simp: accepted_def split: if_splits)
    moreover have "targetsMap s' = targetsMap s"
      using assms False unfolding unf ok by auto
    ultimately show ?thesis by simp
  next
    case yes: True
    then have acc: "accepted flds kp"
      using True ok by (auto simp: accepted_def split: if_splits)
    from assms yes obtain ps where
      ps: "prevProps_of (targetsMap s) (join_dot (butlast kp)) = Inr ps"
      unfolding unf ok
      by (cases "prevProps_of (targetsMap s) (join_dot (butlast kp))") simp_all
    note look = prevProps_of_lookup [OF ps]
    show ?thesis
    proof (cases "last kp \<in> set ps")
      case True
      then have "(join_dot (butlast kp), last kp) \<in> set (recorded (targetsMap s))"
        using look recorded_member [of "targetsMap s" "join_dot (butlast kp)" ps "last kp"]
        by (auto split: option.splits)
      moreover have "targetsMap s' = targetsMap s"
        using assms yes True unfolding unf ok ps by auto
      ultimately show ?thesis using acc by auto
    next
      case False
      have "targetsMap s' = map_set (targetsMap s) (join_dot (butlast kp)) (ps @ [last kp])"
        using assms yes False unfolding unf ok ps by auto
      with recorded_map_set [of "targetsMap s" "join_dot (butlast kp)" "last kp"] look acc
      show ?thesis by simp
    qed
  qed
qed

lemma run_recorded:
  fixes s :: astate
  assumes "run (generateSubscribe flds (Some (track rx sp flds))) p s = (Inr v, s')"
  shows "set (recorded (targetsMap s')) =
           set (recorded (targetsMap s))
             \<union> (\<lambda>kp. (join_dot (butlast kp), last kp))
                 ` {kp \<in> set (subscribed (generateSubscribe flds (Some (track rx sp flds))) p s).
                      accepted flds kp}"
  using assms
proof (induction p arbitrary: s)
  case (Return x)
  then show ?case by simp
next
  case (Throw x)
  then show ?case by simp
next
  case (Subscribe kp k)
  let ?sub = "generateSubscribe flds (Some (track rx sp flds))"
  obtain r s1 where step: "?sub kp s = (r, s1)" by (cases "?sub kp s")
  with Subscribe.prems obtain v1 where r: "r = Inr v1"
    and rest: "run ?sub (k v1) s1 = (Inr v, s')"
    by (cases r) auto
  obtain b where tr: "track rx sp flds kp s = (Inr b, s1)"
    using step r
    by (cases "track rx sp flds kp s")
       (auto simp: generateSubscribe_def split: sum.splits if_splits)
  from Subscribe.IH [OF rangeI rest]
  have ih: "set (recorded (targetsMap s')) =
           set (recorded (targetsMap s1))
             \<union> (\<lambda>kp. (join_dot (butlast kp), last kp))
                 ` {kp \<in> set (subscribed ?sub (k v1) s1). accepted flds kp}" .
  have calls: "subscribed ?sub (Subscribe kp k) s = kp # subscribed ?sub (k v1) s1"
    using step r by simp
  show ?case
    unfolding calls ih track_recorded [OF tr] by auto
qed

lemma analyzeResolver_recorded:
  assumes "analyzeResolver rx res fp flds frm t = (Inr (tm, v), t1)"
  shows "set (recorded tm) =
           (\<lambda>kp. (join_dot (butlast kp), last kp))
             ` {kp \<in> set (analysis_calls rx res fp flds frm t). accepted flds kp}"
proof -
  let ?sub = "generateSubscribe flds (Some (track rx (join_dot (fieldPath fp)) flds))"
  let ?p = "dispatch res
              \<lparr>argFieldProps = ImmutableProps (fieldPath fp) (props fp), argForm = frm\<rparr>
              (formContext frm)"
  obtain r s' where rn: "run ?sub ?p \<lparr>targetsMap = [], console = t\<rparr> = (r, s')"
    by (cases "run ?sub ?p \<lparr>targetsMap = [], console = t\<rparr>")
  with assms have r: "r = Inr v" and tm: "tm = targetsMap s'"
    by (auto simp: analyzeResolver_def Let_def split: sum.splits)
  from run_recorded [OF rn [unfolded r]] show ?thesis
    by (simp add: tm analysis_calls_def recorded_def)
qed

lemma analyzeResolver_constant:
  "analyzeResolver rx (\<lambda>args ctx. Return v) fp flds frm t = (Inr ([], v), t)"
  by (simp add: analyzeResolver_def dispatch_def)

subsection \<open>Change handlers and delegated binders\<close>

lemma generateSubscribe_plain:
  "generateSubscribe flds None keyPath s = (Inr (getIn flds keyPath), s)"
  by (simp add: generateSubscribe_def)

lemma observer_handler_success:
  assumes "setIn (state_fields frm) tp (nextContextProps ev) (nextOid w) = (Inr nextFields, h)"
    and "run (generateSubscribe nextFields None)
           (dispatch res \<lparr>argFieldProps = PlainProps (fieldPath fp) (props fp), argForm = frm\<rparr>
              (formContext frm)) () = (Inr v, ())"
    and "updateField frm (fieldPath fp) [(rx, v)] = Fulfilled updated"
  shows "observer_handler tp rx res fp frm ev w =
           w\<lparr>nextOid := h,
             trace := trace w @ [UpdateField (fieldPath fp) [(rx, v)]] @
               (if truthy (if shouldValidate ev = Undefined then Bool True else shouldValidate ev)
                then [ValidateField
                        \<lparr>force = True, vFieldPath = fieldPath fp, vFieldProps = updated,
                         forceProps = True, vFields = nextFields\<rparr>]
                else [])\<rparr>"
  using assms by (simp add: observer_handler_def Let_def)

lemma warns_no_removal: "list_all is_warn ws \<Longrightarrow> count_list ws (RemoveListener lid) = 0"
  by (induction ws) auto

lemma observer_handler_shape:
  "\<exists>es h. observer_handler tp rx res fp frm ev w = w\<lparr>nextOid := h, trace := trace w @ es\<rparr>
     \<and> count_list es (RemoveListener lid) = 0"
proof -
  obtain r h where s: "setIn (state_fields frm) tp (nextContextProps ev) (nextOid w) = (r, h)"
    by (cases "setIn (state_fields frm) tp (nextContextProps ev) (nextOid w)")
  show ?thesis
  proof (cases r)
    case (Inl e)
    with s show ?thesis
      by (intro exI [of _ "[UnhandledRejection e]"] exI [of _ h])
         (simp add: observer_handler_def Let_def)
  next
    case (Inr nextFields)
    obtain r2 u where rn: "run (generateSubscribe nextFields None)
           (dispatch res \<lparr>argFieldProps = PlainProps (fieldPath fp) (props fp), argForm = frm\<rparr>
              (formContext frm)) () = (r2, u)"
      by (cases "run (generateSubscribe nextFields None)
           (dispatch res \<lparr>argFieldProps = PlainProps (fieldPath fp) (props fp), argForm = frm\<rparr>
              (formContext frm)) ()")
    show ?thesis
    proof (cases r2)
      case (Inl e)
      with s Inr rn show ?thesis
        by (intro exI [of _ "[UnhandledRejection e]"] exI [of _ h])
           (simp add: observer_handler_def Let_def)
    next
      case (Inr v)
      note v = this
      show ?thesis
      proof (cases "updateField frm (fieldPath fp) [(rx, v)]")
        case (RejectedWith x)
        with s \<open>r = Inr nextFields\<close> rn v show ?thesis
          by (intro exI [of _ "[UpdateField (fieldPath fp) [(rx, v)],
                                UnhandledRejection (Rejected x)]"] exI [of _ h])
             (simp add: observer_handler_def Let_def)
      next
        case (Fulfilled updated)
        with s \<open>r = Inr nextFields\<close> rn v show ?thesis
          by (intro exI [of _ "[UpdateField (fieldPath fp) [(rx, v)]] @
               (if truthy (if shouldValidate ev = Undefined then Bool True else shouldValidate ev)
                then [ValidateField
                        \<lparr>force = True, vFieldPath = fieldPath fp, vFieldProps = updated,
                         forceProps = True, vFields = nextFields\<rparr>]
                else [])"] exI [of _ h])
             (simp add: observer_handler_def Let_def)
      qed
    qed
  qed
qed

lemma deliver_change_shape:
  "\<exists>es h. deliver_change ls path prev nid nxt sv frm w = w\<lparr>nextOid := h, trace := trace w @ es\<rparr>
     \<and> count_list es (RemoveListener lid) = 0"
proof (induction ls path prev nid nxt sv frm w rule: deliver_change.induct)
  case (1 path prev nid nxt sv frm w)
  show ?case by (intro exI [of _ "[]"] exI [of _ "nextOid w"]) simp
next
  case (2 l ev tp gp rx res fp rest path prev nid nxt sv frm w)
  then show ?case by simp
next
  case (3 l tp ps rx res fp rest path prev nid nxt sv frm w)
  define w1 where "w1 = (if tp = path \<and> qualifies ps prev nxt
        then observer_handler tp rx res fp frm
               \<lparr>nextContextProps = MapV nid nxt, shouldValidate = sv\<rparr> w
        else w)"
  have step: "deliver_change ((l, ChangeObserver tp ps rx res fp) # rest) path prev nid nxt sv frm w
          = deliver_change rest path prev nid nxt sv frm w1"
    by (simp only: deliver_change.simps w1_def)
  have "\<exists>es h. w1 = w\<lparr>nextOid := h, trace := trace w @ es\<rparr>
          \<and> count_list es (RemoveListener lid) = 0"
  proof (cases "tp = path \<and> qualifies ps prev nxt")
    case True
    then have "w1 = observer_handler tp rx res fp frm
               \<lparr>nextContextProps = MapV nid nxt, shouldValidate = sv\<rparr> w"
      unfolding w1_def by (rule if_P)
    with observer_handler_shape show ?thesis by simp
  next
    case False
    then have "w1 = w" unfolding w1_def by (rule if_not_P)
    then show ?thesis by (intro exI [of _ "[]"] exI [of _ "nextOid w"]) simp
  qed
  then obtain es1 h1 where w1: "w1 = w\<lparr>nextOid := h1, trace := trace w @ es1\<rparr>"
    and c1: "count_list es1 (RemoveListener lid) = 0" by blast
  from "3.IH" [folded w1_def] obtain es2 h2 where
    w2: "deliver_change rest path prev nid nxt sv frm w1 = w1\<lparr>nextOid := h2, trace := trace w1 @ es2\<rparr>"
    and c2: "count_list es2 (RemoveListener lid) = 0" by blast
  have "deliver_change ((l, ChangeObserver tp ps rx res fp) # rest) path prev nid nxt sv frm w
          = w\<lparr>nextOid := h2, trace := trace w @ (es1 @ es2)\<rparr>"
    unfolding step w2 by (simp add: w1)
  with c1 c2 show ?case
    by (intro exI [of _ "es1 @ es2"] exI [of _ h2]) simp
qed

lemma delegated_handler_cases:
  obtains (threw) e ws where
      "list_all is_warn ws"
    and "delegated_handler j tp gp rx res fp frm payload w =
         (Some e, w\<lparr>listeners := filter (\<lambda>il. fst il \<noteq> j) (listeners w),
                    trace := trace w @ [RemoveListener j, LogDelegated] @ ws\<rparr>)"
  | (completed) tm v0 ws where
      "list_all is_warn ws"
    and "analyzeResolver rx res fp (state_fields frm) frm (trace w @ [RemoveListener j, LogDelegated])
         = (Inr (tm, v0), trace w @ [RemoveListener j, LogDelegated] @ ws)"
    and "delegated_handler j tp gp rx res fp frm payload w =
         (None,
          observer_handler tp rx res fp frm
            \<lparr>nextContextProps = payload,
             shouldValidate = Bool (truthy (map_get (props fp) (valuePropName fp)))\<rparr>
            \<lparr>listeners = filter (\<lambda>il. fst il \<noteq> j) (listeners w)
                 @ [(nextId w, ChangeObserver tp (map_of tm gp) rx res fp)],
             nextId = Suc (nextId w), nextOid = nextOid w,
             trace = trace w @ [RemoveListener j, LogDelegated] @ ws\<rparr>)"
proof -
  let ?t0 = "trace w @ [RemoveListener j, LogDelegated]"
  obtain r t where an: "analyzeResolver rx res fp (state_fields frm) frm ?t0 = (r, t)"
    by (cases "analyzeResolver rx res fp (state_fields frm) frm ?t0")
  obtain ws where ws: "t = ?t0 @ ws" "list_all is_warn ws"
    using analyzeResolver_console [of rx res fp "state_fields frm" frm ?t0] an by auto
  show thesis
  proof (cases r)
    case (Inl e)
    with an ws have
      "delegated_handler j tp gp rx res fp frm payload w =
         (Some e, w\<lparr>listeners := filter (\<lambda>il. fst il \<noteq> j) (listeners w),
                    trace := trace w @ [RemoveListener j, LogDelegated] @ ws\<rparr>)"
      by (simp add: delegated_handler_def Let_def)
    with ws show ?thesis by (intro threw) simp_all
  next
    case (Inr res')
    obtain tm v0 where "res' = (tm, v0)" by (cases res')
    with Inr an ws have
      "delegated_handler j tp gp rx res fp frm payload w =
         (None,
          observer_handler tp rx res fp frm
            \<lparr>nextContextProps = payload,
             shouldValidate = Bool (truthy (map_get (props fp) (valuePropName fp)))\<rparr>
            \<lparr>listeners = filter (\<lambda>il. fst il \<noteq> j) (listeners w)
                 @ [(nextId w, ChangeObserver tp (map_of tm gp) rx res fp)],
             nextId = Suc (nextId w), nextOid = nextOid w,
             trace = trace w @ [RemoveListener j, LogDelegated] @ ws\<rparr>)"
      by (cases w) (simp add: delegated_handler_def Let_def createObserver_def)
    with ws Inr an \<open>res' = (tm, v0)\<close> show ?thesis by (intro completed) simp_all
  qed
qed

lemma delegated_handler_completed:
  assumes "analyzeResolver rx res fp (state_fields frm) frm
             (trace w @ [RemoveListener lid, LogDelegated]) = (Inr (tm, v0), t)"
  shows "delegated_handler lid tp gp rx res fp frm payload w =
           (None,
            observer_handler tp rx res fp frm
              \<lparr>nextContextProps = payload,
               shouldValidate = Bool (truthy (map_get (props fp) (valuePropName fp)))\<rparr>
              \<lparr>listeners = filter (\<lambda>il. fst il \<noteq> lid) (listeners w)
                   @ [(nextId w, ChangeObserver tp (map_of tm gp) rx res fp)],
               nextId = Suc (nextId w), nextOid = nextOid w, trace = t\<rparr>)"
  using assms by (cases w) (simp add: delegated_handler_def Let_def createObserver_def)

lemma ids_filter: "fst ` set (filter (\<lambda>il. fst il \<noteq> j) ls) = fst ` set ls - {j}"
  by (induction ls) auto

lemma ids_fresh_filter:
  "list_all (\<lambda>il. fst il < (n::nat)) ls \<Longrightarrow> n \<le> m \<Longrightarrow>
     list_all (\<lambda>il. fst il < m) (filter (\<lambda>il. fst il \<noteq> j) ls)"
  by (induction ls) auto

lemma delegated_handler_shape:
  "\<exists>es extra.
     trace (snd (delegated_handler j tp gp rx res fp frm payload w))
       = trace w @ [RemoveListener j, LogDelegated] @ es
     \<and> count_list es (RemoveListener lid) = 0
     \<and> listeners (snd (delegated_handler j tp gp rx res fp frm payload w))
       = filter (\<lambda>il. fst il \<noteq> j) (listeners w) @ extra
     \<and> list_all (\<lambda>il. fst il = nextId w
                    \<and> fst il < nextId (snd (delegated_handler j tp gp rx res fp frm payload w)))
          extra
     \<and> nextId w \<le> nextId (snd (delegated_handler j tp gp rx res fp frm payload w))"
proof (cases rule: delegated_handler_cases [of j tp gp rx res fp frm payload w])
  case (threw e ws)
  have "count_list ws (RemoveListener lid) = 0"
    using threw(1) by (rule warns_no_removal)
  with threw(2) show ?thesis
    by (intro exI [of _ ws] exI [of _ "[]"]) simp
next
  case (completed tm v0 ws)
  have ws0: "count_list ws (RemoveListener lid) = 0"
    using completed(1) by (rule warns_no_removal)
  let ?ev = "\<lparr>nextContextProps = payload,
              shouldValidate = Bool (truthy (map_get (props fp) (valuePropName fp)))\<rparr>"
  let ?w2 = "\<lparr>listeners = filter (\<lambda>il. fst il \<noteq> j) (listeners w)
                 @ [(nextId w, ChangeObserver tp (map_of tm gp) rx res fp)],
             nextId = Suc (nextId w), nextOid = nextOid w,
             trace = trace w @ [RemoveListener j, LogDelegated] @ ws\<rparr>"
  obtain es h where es:
    "observer_handler tp rx res fp frm ?ev ?w2 = ?w2\<lparr>nextOid := h, trace := trace ?w2 @ es\<rparr>"
    "count_list es (RemoveListener lid) = 0"
    using observer_handler_shape by blast
  from completed(3) es ws0 show ?thesis
    by (intro exI [of _ "ws @ es"]
        exI [of _ "[(nextId w, ChangeObserver tp (map_of tm gp) rx res fp)]"]) simp
qed

lemma delegated_handler_potential:
  assumes fresh: "ids_fresh w" and lt: "lid < nextId w" and reg: "j \<in> fst ` set (listeners w)"
  shows "executions lid (snd (delegated_handler j tp gp rx res fp frm payload w))
           + pending lid (snd (delegated_handler j tp gp rx res fp frm payload w))
         = executions lid w + pending lid w
       \<and> ids_fresh (snd (delegated_handler j tp gp rx res fp frm payload w))
       \<and> lid < nextId (snd (delegated_handler j tp gp rx res fp frm payload w))"
proof -
  let ?w' = "snd (delegated_handler j tp gp rx res fp frm payload w)"
  from delegated_handler_shape [of j tp gp rx res fp frm payload w lid]
  obtain es extra where tr: "trace ?w' = trace w @ [RemoveListener j, LogDelegated] @ es"
    and es0: "count_list es (RemoveListener lid) = 0"
    and ls: "listeners ?w' = filter (\<lambda>il. fst il \<noteq> j) (listeners w) @ extra"
    and ex: "list_all (\<lambda>il. fst il = nextId w \<and> fst il < nextId ?w') extra"
    and nx: "nextId w \<le> nextId ?w'" by blast
  have not_extra: "lid \<notin> fst ` set extra"
    using ex lt by (induction extra) auto
  have ids: "fst ` set (listeners ?w') = (fst ` set (listeners w) - {j}) \<union> fst ` set extra"
    unfolding ls by (simp only: set_append image_Un ids_filter)
  have exec: "executions lid ?w' = executions lid w + (if j = lid then 1 else 0)"
    by (simp add: executions_def tr es0)
  have pend: "pending lid ?w' + (if j = lid then 1 else 0) = pending lid w"
    using reg not_extra by (auto simp: pending_def ids)
  have "list_all (\<lambda>il. fst il < nextId ?w') extra"
    using ex by (induction extra) auto
  moreover have "list_all (\<lambda>il. fst il < nextId ?w')
                   (filter (\<lambda>il. fst il \<noteq> j) (listeners w))"
    using fresh nx unfolding ids_fresh_def by (rule ids_fresh_filter)
  ultimately have "ids_fresh ?w'"
    by (simp add: ids_fresh_def ls)
  with exec pend lt nx show ?thesis by simp
qed

lemma deliver_registered_potential:
  "ids_fresh w \<Longrightarrow> lid < nextId w \<Longrightarrow>
     executions lid (snd (deliver_registered snap frm payload w))
       + pending lid (snd (deliver_registered snap frm payload w))
     = executions lid w + pending lid w
     \<and> ids_fresh (snd (deliver_registered snap frm payload w))
     \<and> lid < nextId (snd (deliver_registered snap frm payload w))"
proof (induction snap frm payload w rule: deliver_registered.induct)
  case (3 j ev tp gp rx res fp rest frm payload w)
  show ?case
  proof (cases "j \<in> fst ` set (listeners w)")
    case False
    with 3 show ?thesis by simp
  next
    case True
    obtain r w' where h: "delegated_handler j tp gp rx res fp frm payload w = (r, w')"
      by (cases "delegated_handler j tp gp rx res fp frm payload w")
    from delegated_handler_potential [OF "3.prems" True, of tp gp rx res fp frm payload] h
    have keep: "executions lid w' + pending lid w' = executions lid w + pending lid w"
      and fresh': "ids_fresh w'" and lt': "lid < nextId w'" by simp_all
    show ?thesis
    proof (cases r)
      case None
      with True h "3.IH"(1) [OF True h [symmetric] _ fresh' lt'] keep show ?thesis
        by simp
    next
      case (Some e)
      with True h keep fresh' lt' show ?thesis by simp
    qed
  qed
qed simp_all

lemma react_potential:
  assumes "ids_fresh w" and "lid < nextId w"
  shows "executions lid (react e w) + pending lid (react e w) = executions lid w + pending lid w
         \<and> ids_fresh (react e w) \<and> lid < nextId (react e w)"
proof (cases e)
  case (RegisteredEvent eventName frm payload)
  with assms deliver_registered_potential show ?thesis
    by (simp add: emit_registered_def)
next
  case (PropsChange path prev nid nxt sv frm)
  obtain es h where
    "deliver_change (listeners w) path prev nid nxt sv frm w = w\<lparr>nextOid := h, trace := trace w @ es\<rparr>"
    "count_list es (RemoveListener lid) = 0"
    using deliver_change_shape by blast
  with PropsChange assms show ?thesis
    by (simp add: emit_change_def executions_def pending_def ids_fresh_def)
qed

lemma run_events_potential:
  "ids_fresh w \<Longrightarrow> lid < nextId w \<Longrightarrow>
     executions lid (run_events evs w) + pending lid (run_events evs w)
       = executions lid w + pending lid w"
proof (induction evs arbitrary: w)
  case Nil
  then show ?case by (simp add: run_events_def)
next
  case (Cons e evs)
  from react_potential [OF Cons.prems, of e]
  have "executions lid (react e w) + pending lid (react e w) = executions lid w + pending lid w"
    and "ids_fresh (react e w)" and "lid < nextId (react e w)" by simp_all
  with Cons.IH [of "react e w"] show ?case by (simp add: run_events_def)
qed

lemma delegated_handler_effects:
  assumes "analyzeResolver rx res fp (state_fields frm) frm
             (trace w @ [RemoveListener lid, LogDelegated]) = (Inr (tm, v0), t)"
    and "setIn (state_fields frm) tp payload (nextOid w) = (Inr nextFields, h)"
    and "run (generateSubscribe nextFields None)
           (dispatch res \<lparr>argFieldProps = PlainProps (fieldPath fp) (props fp), argForm = frm\<rparr>
              (formContext frm)) () = (Inr v, ())"
    and "updateField frm (fieldPath fp) [(rx, v)] = Fulfilled updated"
  shows "delegated_handler lid tp gp rx res fp frm payload w =
           (None,
            \<lparr>listeners = filter (\<lambda>il. fst il \<noteq> lid) (listeners w)
                 @ [(nextId w, ChangeObserver tp (map_of tm gp) rx res fp)],
             nextId = Suc (nextId w),
             nextOid = h,
             trace = t @ [UpdateField (fieldPath fp) [(rx, v)]]
                 @ (if truthy (map_get (props fp) (valuePropName fp))
                    then [ValidateField
                            \<lparr>force = True, vFieldPath = fieldPath fp, vFieldProps = updated,
                             forceProps = True, vFields = nextFields\<rparr>]
                    else [])\<rparr>)
       \<and> (\<exists>ws. list_all is_warn ws \<and> t = trace w @ [RemoveListener lid, LogDelegated] @ ws)"
proof -
  let ?ev = "\<lparr>nextContextProps = payload,
              shouldValidate = Bool (truthy (map_get (props fp) (valuePropName fp)))\<rparr>"
  let ?w3 = "\<lparr>listeners = filter (\<lambda>il. fst il \<noteq> lid) (listeners w)
                   @ [(nextId w, ChangeObserver tp (map_of tm gp) rx res fp)],
               nextId = Suc (nextId w), nextOid = nextOid w, trace = t\<rparr>"
  have ws: "\<exists>ws. list_all is_warn ws \<and> t = trace w @ [RemoveListener lid, LogDelegated] @ ws"
    using analyzeResolver_console [of rx res fp "state_fields frm" frm
        "trace w @ [RemoveListener lid, LogDelegated]"] assms(1) by auto
  have "observer_handler tp rx res fp frm ?ev ?w3 =
          ?w3\<lparr>nextOid := h,
               trace := trace ?w3 @ [UpdateField (fieldPath fp) [(rx, v)]] @
            (if truthy (map_get (props fp) (valuePropName fp))
             then [ValidateField
                     \<lparr>force = True, vFieldPath = fieldPath fp, vFieldProps = updated,
                      forceProps = True, vFields = nextFields\<rparr>]
             else [])\<rparr>"
    using observer_handler_success [of frm tp ?ev ?w3 nextFields h res fp v rx updated] assms(2-4)
    by simp
  with delegated_handler_completed [OF assms(1), of tp gp payload] ws show ?thesis
    by simp
qed

subsection \<open>The orchestrator\<close>

lemma object_keys_set: "set (object_keys obj) = fst ` set obj"
  by (auto simp: object_keys_def Let_def)

lemma subscribeTarget_shape:
  "subscribeTarget camelize rx res fp flds tm w g =
     w\<lparr>listeners := listeners w @ [(nextId w, listener_for camelize rx res fp flds tm g)],
       nextId := Suc (nextId w)\<rparr>"
  by (simp add: subscribeTarget_def listener_for_def createObserver_def Let_def)

lemma foldl_subscribeTarget:
  "\<exists>created.
     foldl (subscribeTarget camelize rx res fp flds tm) w gs
       = w\<lparr>listeners := listeners w @ created, nextId := nextId w + length gs\<rparr>
     \<and> map snd created = map (listener_for camelize rx res fp flds tm) gs"
proof (induction gs arbitrary: w)
  case Nil
  show ?case by (intro exI [of _ "[]"]) simp
next
  case (Cons g gs)
  let ?w1 = "subscribeTarget camelize rx res fp flds tm w g"
  from Cons.IH [of ?w1] obtain created where
    c: "foldl (subscribeTarget camelize rx res fp flds tm) ?w1 gs
          = ?w1\<lparr>listeners := listeners ?w1 @ created, nextId := nextId ?w1 + length gs\<rparr>"
       "map snd created = map (listener_for camelize rx res fp flds tm) gs"
    by blast
  have "foldl (subscribeTarget camelize rx res fp flds tm) w (g # gs)
          = foldl (subscribeTarget camelize rx res fp flds tm) ?w1 gs"
    by (simp only: foldl.simps)
  also have "\<dots> = ?w1\<lparr>listeners := listeners ?w1 @ created,
                       nextId := nextId ?w1 + length gs\<rparr>"
    by (rule c(1))
  also have "\<dots> = w\<lparr>listeners := listeners w
                         @ ((nextId w, listener_for camelize rx res fp flds tm g) # created),
                      nextId := nextId w + length (g # gs)\<rparr>"
    by (simp add: subscribeTarget_shape)
  finally show ?case
    using c(2)
    by (intro exI [of _ "(nextId w, listener_for camelize rx res fp flds tm g) # created"]) simp
qed

lemma subscribeProp_threw:
  assumes "fst (analyzeResolver (fst entry) (snd entry) fp flds frm []) = Inl e"
  shows "fst (subscribeProp camelize fp flds frm entry w) = Some e"
proof -
  have "fst (analyzeResolver (fst entry) (snd entry) fp flds frm (trace w)) = Inl e"
    using assms analyzeResolver_indep [of "fst entry" "snd entry" fp flds frm "trace w" "[]"]
    by simp
  then show ?thesis
    by (cases "analyzeResolver (fst entry) (snd entry) fp flds frm (trace w)")
       (simp add: subscribeProp_def Let_def)
qed

lemma subscribeProp_completed:
  assumes "fst (analyzeResolver (fst entry) (snd entry) fp flds frm []) = Inr (tm, v)"
  shows "fst (subscribeProp camelize fp flds frm entry w) = None
       \<and> (\<exists>ws. trace (snd (subscribeProp camelize fp flds frm entry w))
                  = trace w @ ws @ [LogInitialValue v,
                                    UpdateField (fieldPath fp) [(fst entry, v)]])
       \<and> (\<exists>created. listeners (snd (subscribeProp camelize fp flds frm entry w))
                        = listeners w @ created
            \<and> map snd created = listeners_for camelize fp flds frm entry)"
proof -
  obtain r t where an: "analyzeResolver (fst entry) (snd entry) fp flds frm (trace w) = (r, t)"
    by (cases "analyzeResolver (fst entry) (snd entry) fp flds frm (trace w)")
  have r: "r = Inr (tm, v)"
    using assms an analyzeResolver_indep [of "fst entry" "snd entry" fp flds frm "trace w" "[]"]
    by simp
  obtain ws where ws: "t = trace w @ ws"
    using analyzeResolver_console [of "fst entry" "snd entry" fp flds frm "trace w"] an by auto
  let ?w1 = "w\<lparr>trace := t @ [LogInitialValue v, UpdateField (fieldPath fp) [(fst entry, v)]]\<rparr>"
  show ?thesis
  proof (cases "object_keys tm = []")
    case True
    with an r ws assms show ?thesis
      by (simp add: subscribeProp_def Let_def listeners_for_def)
  next
    case False
    obtain created where
      c: "foldl (subscribeTarget camelize (fst entry) (snd entry) fp flds tm) ?w1 (object_keys tm)
            = ?w1\<lparr>listeners := listeners ?w1 @ created,
                   nextId := nextId ?w1 + length (object_keys tm)\<rparr>"
         "map snd created
            = map (listener_for camelize (fst entry) (snd entry) fp flds tm) (object_keys tm)"
      using foldl_subscribeTarget by blast
    have res: "subscribeProp camelize fp flds frm entry w
            = (None, ?w1\<lparr>listeners := listeners ?w1 @ created,
                          nextId := nextId ?w1 + length (object_keys tm)\<rparr>)"
      using False an r c(1) by (simp add: subscribeProp_def Let_def)
    have "map snd created = listeners_for camelize fp flds frm entry"
      using c(2) assms by (simp add: listeners_for_def)
    with res ws show ?thesis by simp
  qed
qed

lemma forEachProp_completed:
  "forEachProp camelize fp flds frm rxProps w = (None, w') \<Longrightarrow>
     (\<forall>entry \<in> set rxProps.
        \<exists>tm v. fst (analyzeResolver (fst entry) (snd entry) fp flds frm []) = Inr (tm, v)
          \<and> UpdateField (fieldPath fp) [(fst entry, v)] \<in> set (trace w'))
     \<and> set (trace w) \<subseteq> set (trace w')
     \<and> (\<exists>created. listeners w' = listeners w @ created
          \<and> map snd created = concat (map (listeners_for camelize fp flds frm) rxProps))"
proof (induction rxProps arbitrary: w)
  case Nil
  then show ?case by simp
next
  case (Cons entry rest)
  obtain r w1 where step: "subscribeProp camelize fp flds frm entry w = (r, w1)"
    by (cases "subscribeProp camelize fp flds frm entry w")
  with Cons.prems have r: "r = None" and rest: "forEachProp camelize fp flds frm rest w1 = (None, w')"
    by (auto split: option.splits)
  obtain tm v where an: "fst (analyzeResolver (fst entry) (snd entry) fp flds frm []) = Inr (tm, v)"
  proof (cases "fst (analyzeResolver (fst entry) (snd entry) fp flds frm [])")
    case (Inl e)
    from subscribeProp_threw [OF Inl, of camelize w] step r show ?thesis by simp
  next
    case (Inr p)
    with that show ?thesis by (cases p) simp
  qed
  from subscribeProp_completed [OF an, of camelize w] step
  obtain ws c1 where tr: "trace w1 = trace w @ ws @ [LogInitialValue v,
                                    UpdateField (fieldPath fp) [(fst entry, v)]]"
    and ls: "listeners w1 = listeners w @ c1"
            "map snd c1 = listeners_for camelize fp flds frm entry"
    by auto
  from Cons.IH [OF rest]
  obtain c2 where ih1: "\<forall>entry \<in> set rest.
        \<exists>tm v. fst (analyzeResolver (fst entry) (snd entry) fp flds frm []) = Inr (tm, v)
          \<and> UpdateField (fieldPath fp) [(fst entry, v)] \<in> set (trace w')"
    and ih2: "set (trace w1) \<subseteq> set (trace w')"
    and ih3: "listeners w' = listeners w1 @ c2"
             "map snd c2 = concat (map (listeners_for camelize fp flds frm) rest)"
    by blast
  have here: "UpdateField (fieldPath fp) [(fst entry, v)] \<in> set (trace w')"
    using ih2 tr by auto
  have sub: "set (trace w) \<subseteq> set (trace w')"
    using ih2 tr by auto
  have "listeners w' = listeners w @ (c1 @ c2)"
       "map snd (c1 @ c2) = concat (map (listeners_for camelize fp flds frm) (entry # rest))"
    using ls ih3 by simp_all
  then have "\<exists>created. listeners w' = listeners w @ created
          \<and> map snd created = concat (map (listeners_for camelize fp flds frm) (entry # rest))"
    by blast
  with an here ih1 sub show ?case by auto
qed

lemma createSubscriptions_completed:
  assumes "reactiveProps fp = Some rxProps"
    and "createSubscriptions camelize fp flds frm w = (None, w')"
  shows "(\<forall>entry \<in> set rxProps.
            \<exists>tm v. fst (analyzeResolver (fst entry) (snd entry) fp flds frm []) = Inr (tm, v)
              \<and> UpdateField (fieldPath fp) [(fst entry, v)] \<in> set (trace w'))
       \<and> (\<exists>created. listeners w' = listeners w @ created
            \<and> map snd created = concat (map (listeners_for camelize fp flds frm) rxProps))
       \<and> ((\<forall>entry \<in> set rxProps.
              \<exists>v. fst (analyzeResolver (fst entry) (snd entry) fp flds frm []) = Inr ([], v))
            \<longrightarrow> listeners w' = listeners w)"
proof -
  from assms forEachProp_completed [of camelize fp flds frm rxProps w w']
  have pushed: "\<forall>entry \<in> set rxProps.
            \<exists>tm v. fst (analyzeResolver (fst entry) (snd entry) fp flds frm []) = Inr (tm, v)
              \<and> UpdateField (fieldPath fp) [(fst entry, v)] \<in> set (trace w')"
    and wired: "\<exists>created. listeners w' = listeners w @ created
            \<and> map snd created = concat (map (listeners_for camelize fp flds frm) rxProps)"
    by (simp_all add: createSubscriptions_def)
  have "listeners w' = listeners w"
    if static: "\<forall>entry \<in> set rxProps.
              \<exists>v. fst (analyzeResolver (fst entry) (snd entry) fp flds frm []) = Inr ([], v)"
  proof -
    have "listeners_for camelize fp flds frm entry = []" if "entry \<in> set rxProps" for entry
      using static that by (auto simp: listeners_for_def object_keys_def)
    then have "concat (map (listeners_for camelize fp flds frm) rxProps) = []"
      by simp
    with wired show ?thesis by auto
  qed
  with pushed wired show ?thesis by blast
qed

section \<open>The tracing subscriber and the dependency analyzer\<close>

text \<open>
  Claim C8. A \<open>subscribe\<close> call of the analysis with a key path of length at most one
  emits the invalid-key-path diagnostic, returns \<open>undefined\<close>, and leaves the targets
  map as it was: the path is not recorded.
\<close>

theorem short_key_path_rejected:
  assumes "length keyPath \<le> 1"
  shows "generateSubscribe flds (Some (track rx sp flds)) keyPath s =
           (Inr Undefined,
            s\<lparr>console := console s @ [Warn invalid_key_path_msg [rx, sp, join_dot keyPath]]\<rparr>)
         \<and> targetsMap (snd (generateSubscribe flds (Some (track rx sp flds)) keyPath s))
             = targetsMap s"
  using assms by (simp add: generateSubscribe_def track_short)

theorem short_key_path_rejected_witness:
  "length [''a''] \<le> 1 \<and>
   generateSubscribe example_fields (Some (track ''label'' ''b'' example_fields)) [''a'']
       \<lparr>targetsMap = [], console = []\<rparr> =
     (Inr Undefined,
      \<lparr>targetsMap = [], console = [Warn invalid_key_path_msg [''label'', ''b'', ''a'']]\<rparr>)"
  using short_key_path_rejected [of "[''a'']" example_fields "''label''" "''b''"
      "\<lparr>targetsMap = [], console = []\<rparr>"]
  by simp

text \<open>
  Claim C1, as the code has it. A \<open>subscribe\<close> call of the analysis with a key path of
  length at least two, whose target field is in the tree as a map that does not declare
  the property named last, emits the invalid-prop-name diagnostic, returns \<open>undefined\<close>,
  and leaves the targets map as it was: the guard \<open>if (!isValidPropName) return\<close> ends
  the callback before the dependency is recorded.
\<close>

theorem undeclared_prop_not_tracked:
  assumes "2 \<le> length keyPath"
    and "getIn_opt flds (butlast keyPath) = Some (MapV i m)"
    and "map_of m (last keyPath) = None"
  shows "generateSubscribe flds (Some (track rx sp flds)) keyPath s =
           (Inr Undefined,
            s\<lparr>console := console s @ [Warn invalid_prop_name_msg [rx, sp, last keyPath]]\<rparr>)"
proof -
  have "track rx sp flds keyPath s =
          (Inr False,
           s\<lparr>console := console s @ [Warn invalid_prop_name_msg [rx, sp, last keyPath]]\<rparr>)"
    using assms take_butlast_last [OF assms(1)]
    by (simp add: track_def Let_def warn_def hasIn_def getIn_def)
  then show ?thesis by (simp add: generateSubscribe_def)
qed

theorem undeclared_prop_not_tracked_witness:
  "2 \<le> length [''a'', ''nope''] \<and>
   getIn_opt example_fields (butlast [''a'', ''nope''])
     = Some (MapV (Given 1) [(''value'', Str ''x'')]) \<and>
   map_of [(''value'', Str ''x'')] (last [''a'', ''nope'']) = None \<and>
   generateSubscribe example_fields (Some (track ''label'' ''b'' example_fields)) [''a'', ''nope'']
       \<lparr>targetsMap = [], console = []\<rparr> =
     (Inr Undefined,
      \<lparr>targetsMap = [], console = [Warn invalid_prop_name_msg [''label'', ''b'', ''nope'']]\<rparr>)"
  using undeclared_prop_not_tracked [of "[''a'', ''nope'']" example_fields "Given 1"
      "[(''value'', Str ''x'')]" "''label''" "''b''" "\<lparr>targetsMap = [], console = []\<rparr>"]
  by (simp add: example_fields_def)

text \<open>
  Claim C1 as stated fails: field \<open>a\<close> is registered and declares \<open>value\<close> only; after
  \<open>subscribe('a', 'nope')\<close> the diagnostic is there and the targets map has no entry
  for \<open>a\<close>.
\<close>

theorem undeclared_prop_counterexample:
  "2 \<le> length [''a'', ''nope''] \<and> hasIn example_fields [''a''] \<and>
   has (getIn example_fields [''a'']) ''nope'' = Inr False \<and>
   console (snd (generateSubscribe example_fields (Some (track ''label'' ''b'' example_fields))
                   [''a'', ''nope''] \<lparr>targetsMap = [], console = []\<rparr>))
     = [Warn invalid_prop_name_msg [''label'', ''b'', ''nope'']] \<and>
   map_of (targetsMap (snd (generateSubscribe example_fields
                              (Some (track ''label'' ''b'' example_fields))
                              [''a'', ''nope''] \<lparr>targetsMap = [], console = []\<rparr>)))
      ''a'' = None"
  by (simp add: example_fields_def generateSubscribe_def track_def Let_def warn_def
      hasIn_def getIn_def)

text \<open>
  Claim C5 at a failing input. Field \<open>a\<close> holds \<open>value = 'x'\<close> and the pair
  \<open>a\<close>/\<open>value\<close> is already recorded: the repeated \<open>subscribe('a', 'value')\<close> leaves the
  map unchanged but returns \<open>undefined\<close>, not \<open>'x'\<close>, because the bare \<open>return\<close> of the
  deduplication makes the callback's answer falsy. A resolver that returns what its
  second, identical call gave it gets \<open>undefined\<close> as its initial value.
\<close>

theorem repeated_subscribe_returns_undefined:
  "getIn example_fields [''a'', ''value''] = Str ''x'' \<and>
   generateSubscribe example_fields (Some (track ''label'' ''b'' example_fields)) [''a'', ''value'']
       \<lparr>targetsMap = [(''a'', [''value''])], console = []\<rparr> =
     (Inr Undefined, \<lparr>targetsMap = [(''a'', [''value''])], console = []\<rparr>) \<and>
   fst (analyzeResolver ''label'' twice_resolver example_subscriber example_fields example_form [])
     = Inr ([(''a'', [''value''])], Undefined)"
  by (simp add: example_fields_def generateSubscribe_def track_def Let_def warn_def
      hasIn_def getIn_def prevProps_of_def a_not_inherited analyzeResolver_def
        twice_resolver_def
      dispatch_def example_subscriber_def)

text \<open>
  Claim C10. A call of the dependency analyzer starts from an empty targets map and
  nothing of an earlier call reaches it. The result (the targets map and the initial
  value, or the exception) is the same whatever earlier calls left behind, the console
  being the only state that outlives a call. The map a call returns holds exactly the
  target/property pairs of the key paths the resolver handed to \<open>subscribe\<close> in that
  call and the callback accepted, and nothing else. And a resolver that subscribes to
  nothing gets the empty map and its own value, after whatever calls came before.
\<close>

theorem analysis_repeatable:
  "fst (analyzeResolver rx res fp flds frm t') = fst (analyzeResolver rx res fp flds frm t)
   \<and> (\<forall>tm v. fst (analyzeResolver rx res fp flds frm t) = Inr (tm, v) \<longrightarrow>
         set (recorded tm) =
           (\<lambda>kp. (join_dot (butlast kp), last kp))
             ` {kp \<in> set (analysis_calls rx res fp flds frm t). accepted flds kp})
   \<and> analyzeResolver rx (\<lambda>args ctx. Return v') fp flds frm t = (Inr ([], v'), t)"
proof -
  have "set (recorded tm) =
           (\<lambda>kp. (join_dot (butlast kp), last kp))
             ` {kp \<in> set (analysis_calls rx res fp flds frm t). accepted flds kp}"
    if "fst (analyzeResolver rx res fp flds frm t) = Inr (tm, v)" for tm v
    using that analyzeResolver_recorded [of rx res fp flds frm t tm v]
    by (cases "analyzeResolver rx res fp flds frm t") simp
  with analyzeResolver_indep [of rx res fp flds frm t' t] analyzeResolver_constant
  show ?thesis by blast
qed

theorem analysis_repeatable_witness:
  "fst (analyzeResolver ''label'' twice_resolver example_subscriber example_fields example_form
          (snd (analyzeResolver ''label'' twice_resolver example_subscriber example_fields
                  example_form [])))
     = Inr ([(''a'', [''value''])], Undefined) \<and>
   analysis_calls ''label'' twice_resolver example_subscriber example_fields example_form []
     = [[''a'', ''value''], [''a'', ''value'']] \<and>
   accepted example_fields [''a'', ''value''] \<and>
   set (recorded [(''a'', [''value''])]) = {(''a'', ''value'')} \<and>
   analyzeResolver ''label'' (\<lambda>args ctx. Return (Str ''fixed'')) example_subscriber example_fields
       example_form [Warn ''earlier'' []]
     = (Inr ([], Str ''fixed''), [Warn ''earlier'' []])"
proof -
  have run: "analyzeResolver ''label'' twice_resolver example_subscriber example_fields
                example_form [] = (Inr ([(''a'', [''value''])], Undefined), [])"
    by (simp add: example_fields_def generateSubscribe_def track_def Let_def warn_def
        hasIn_def getIn_def prevProps_of_def a_not_inherited analyzeResolver_def
        twice_resolver_def dispatch_def example_subscriber_def)
  have calls: "analysis_calls ''label'' twice_resolver example_subscriber example_fields
                 example_form [] = [[''a'', ''value''], [''a'', ''value'']]"
    by (simp add: example_fields_def generateSubscribe_def track_def Let_def warn_def
        hasIn_def getIn_def prevProps_of_def a_not_inherited analysis_calls_def
        twice_resolver_def dispatch_def example_subscriber_def)
  have acc: "accepted example_fields [''a'', ''value'']"
    by (simp add: accepted_def example_fields_def hasIn_def getIn_def)
  note th = analysis_repeatable [of "''label''" twice_resolver example_subscriber example_fields
      example_form "[]" "[]" "Str ''fixed''"]
  have again: "fst (analyzeResolver ''label'' twice_resolver example_subscriber example_fields
          example_form (snd (analyzeResolver ''label'' twice_resolver example_subscriber
                  example_fields example_form [])))
     = Inr ([(''a'', [''value''])], Undefined)"
    using analysis_repeatable [of "''label''" twice_resolver example_subscriber example_fields
      example_form "snd (analyzeResolver ''label'' twice_resolver example_subscriber
                  example_fields example_form [])" "[]" "Str ''fixed''"] run
    by simp
  have pairs: "set (recorded [(''a'', [''value''])]) = {(''a'', ''value'')}"
    using th [THEN conjunct2, THEN conjunct1, rule_format, of "[(''a'', [''value''])]" Undefined]
      run calls acc
    by auto
  have const: "analyzeResolver ''label'' (\<lambda>args ctx. Return (Str ''fixed'')) example_subscriber
       example_fields example_form [Warn ''earlier'' []]
     = (Inr ([], Str ''fixed''), [Warn ''earlier'' []])"
    using analysis_repeatable [of "''label''" "\<lambda>args ctx. Return (Str ''fixed'')"
      example_subscriber example_fields example_form "[]" "[Warn ''earlier'' []]" "Str ''fixed''"]
    by (simp add: analyzeResolver_def dispatch_def)
  from again calls acc pairs const show ?thesis by blast
qed

text \<open>
  Claim C7. In the targets map of one analysis every glued path is a key once and no
  property name occurs more than once in a list; the resolver that subscribes to
  \<open>a\<close>/\<open>value\<close> twice gets the single entry \<open>value\<close>.
\<close>

theorem dependency_lists_distinct:
  assumes "analyzeResolver rx res fp flds frm t = (Inr (tm, v), t')"
  shows "distinct (map fst tm) \<and>
         (\<forall>g ps p. map_of tm g = Some ps \<longrightarrow> distinct ps \<and> count_list ps p \<le> 1)"
proof -
  have ok: "deps_ok tm"
    using assms analyzeResolver_deps_ok [of rx res fp flds frm t tm v] by simp
  have keys: "distinct (map fst tm)"
    using ok by (simp add: deps_ok_def)
  have "distinct ps \<and> count_list ps p \<le> 1" if "map_of tm g = Some ps" for g ps p
  proof -
    have "distinct ps"
      using ok that map_of_all [of "\<lambda>entry. distinct (snd entry)" tm g ps]
      by (simp add: deps_ok_def)
    then show ?thesis using distinct_count_le_one [of ps p] by simp
  qed
  with keys show ?thesis by blast
qed

theorem dependency_lists_distinct_witness:
  "analyzeResolver ''label'' twice_resolver example_subscriber example_fields example_form []
     = (Inr ([(''a'', [''value''])], Undefined), []) \<and>
   distinct (map fst [(''a'', [''value''])]) \<and>
   map_of [(''a'', [''value''])] ''a'' = Some [''value''] \<and>
   distinct [''value''] \<and> count_list [''value''] ''value'' \<le> 1"
proof -
  have run: "analyzeResolver ''label'' twice_resolver example_subscriber example_fields
                example_form [] = (Inr ([(''a'', [''value''])], Undefined), [])"
    by (simp add: example_fields_def generateSubscribe_def track_def Let_def warn_def
        hasIn_def getIn_def prevProps_of_def a_not_inherited analyzeResolver_def
        twice_resolver_def dispatch_def example_subscriber_def)
  from dependency_lists_distinct [OF run] run show ?thesis by simp
qed

section \<open>The subscription orchestrator\<close>

text \<open>
  Claim C3 at a failing input. The tree holds one field, registered under the name
  \<open>a.b\<close>, and the resolver of the subscriber reads \<open>subscribe('a.b', 'value')\<close>. The
  analysis stores the dependency under the key \<open>a.b\<close> (the field path joined with
  dots, line 50); the orchestrator splits that key at the dot (line 141) and asks the
  tree for the path \<open>a\<close>, \<open>b\<close>, which it does not have: a delegated binder is made,
  waiting for the registration of a field that is there already, and no change observer.
  For the field named \<open>a\<close> of the other form the same steps give the change observer.
  In both runs \<open>updateField\<close> gets the initial value.
\<close>

theorem dotted_target_gets_binder:
  "hasIn dotted_fields [''a.b''] \<and>
   createSubscriptions camelize dotted_subscriber dotted_fields dotted_form idle_world =
     (None,
      \<lparr>listeners = [(0, DelegatedBinder (camelize [''a'', ''b'', ''registered'']) [''a'', ''b'']
                           ''a.b'' ''label'' dotted_resolver dotted_subscriber)],
       nextId = 1, nextOid = 0,
       trace = [LogInitialValue (Str ''x''), UpdateField [''c''] [(''label'', Str ''x'')]]\<rparr>) \<and>
   hasIn example_fields [''a''] \<and>
   createSubscriptions camelize example_subscriber example_fields example_form idle_world =
     (None,
      \<lparr>listeners = [(0, ChangeObserver [''a''] (Some [''value'']) ''label'' example_resolver
                           example_subscriber)],
       nextId = 1, nextOid = 0,
       trace = [LogInitialValue (Str ''x''), UpdateField [''b''] [(''label'', Str ''x'')]]\<rparr>)"
proof -
  have h1: "hasIn dotted_fields [''a.b'']"
    by (simp add: hasIn_def dotted_fields_def)
  have a1: "analyzeResolver ''label'' dotted_resolver dotted_subscriber dotted_fields
          dotted_form [] = (Inr ([(''a.b'', [''value''])], Str ''x''), [])"
    by (simp add: dotted_fields_def generateSubscribe_def track_def Let_def warn_def
        hasIn_def getIn_def prevProps_of_def b_not_inherited analyzeResolver_def
        dotted_resolver_def dispatch_def dotted_subscriber_def)
  have k1: "object_keys [(''a.b'', [''value''])] = [''a.b'']"
    by (simp add: object_keys_def is_array_index_def is_digit_def)
  have s1: "split_dot ''a.b'' = [''a'', ''b'']"
    by simp
  have n1: "\<not> hasIn dotted_fields [''a'', ''b'']"
    by (simp add: hasIn_def dotted_fields_def)
  have c1: "createSubscriptions camelize dotted_subscriber dotted_fields dotted_form idle_world =
     (None,
      \<lparr>listeners = [(0, DelegatedBinder (camelize [''a'', ''b'', ''registered'']) [''a'', ''b'']
                           ''a.b'' ''label'' dotted_resolver dotted_subscriber)],
       nextId = 1, nextOid = 0,
       trace = [LogInitialValue (Str ''x''), UpdateField [''c''] [(''label'', Str ''x'')]]\<rparr>)"
    using a1 k1 s1 n1
    by (simp add: createSubscriptions_def subscribeProp_def Let_def subscribeTarget_def
        createObserver_def idle_world_def dotted_subscriber_def)
  have h2: "hasIn example_fields [''a'']"
    by (simp add: hasIn_def example_fields_def)
  have a2: "analyzeResolver ''label'' example_resolver example_subscriber example_fields
          example_form [] = (Inr ([(''a'', [''value''])], Str ''x''), [])"
    by (simp add: example_fields_def generateSubscribe_def track_def Let_def warn_def
        hasIn_def getIn_def prevProps_of_def a_not_inherited analyzeResolver_def
        example_resolver_def dispatch_def example_subscriber_def)
  have k2: "object_keys [(''a'', [''value''])] = [''a'']"
    by (simp add: object_keys_def is_array_index_def is_digit_def)
  have s2: "hasIn example_fields (split_dot ''a'')"
    by (simp add: hasIn_def example_fields_def)
  have c2: "createSubscriptions camelize example_subscriber example_fields example_form idle_world =
     (None,
      \<lparr>listeners = [(0, ChangeObserver [''a''] (Some [''value'']) ''label'' example_resolver
                           example_subscriber)],
       nextId = 1, nextOid = 0,
       trace = [LogInitialValue (Str ''x''), UpdateField [''b''] [(''label'', Str ''x'')]]\<rparr>)"
    using a2 k2 s2
    by (simp add: createSubscriptions_def subscribeProp_def Let_def subscribeTarget_def
        createObserver_def idle_world_def example_subscriber_def)
  from h1 c1 h2 c2 show ?thesis by blast
qed

section \<open>The change observer\<close>

text \<open>
  Claim C4, as the code has it. A change of the target field reaches the handler of a
  change observer exactly when, for one tracked property, what the previous snapshot
  holds is not \<open>===\<close> to what the next one holds (another value, or another map or
  promise, even one with the same content). The handler, when none of its steps throws
  or is rejected, does this in order: it builds the updated tree with the target path
  set to the next properties; it runs the resolver with a \<open>subscribe\<close> that only looks
  up that tree; it takes the value the resolver returned as it is, without awaiting it;
  it calls \<open>updateField\<close> with the subscriber's field path and the patch
  \<open>{[rxPropName]: value}\<close> and awaits it; and it calls \<open>validateField\<close>, with \<open>force\<close>
  and \<open>forceProps\<close> set, the updated properties and the updated tree, exactly when
  \<open>shouldValidate\<close> is truthy, an absent \<open>shouldValidate\<close> counting as true.
\<close>

theorem change_handler_effects:
  assumes "setIn (state_fields frm) tp (MapV nid nxt) (nextOid w) = (Inr nextFields, h)"
    and "run (generateSubscribe nextFields None)
           (dispatch res \<lparr>argFieldProps = PlainProps (fieldPath fp) (props fp), argForm = frm\<rparr>
              (formContext frm)) () = (Inr v, ())"
    and "updateField frm (fieldPath fp) [(rx, v)] = Fulfilled updated"
  shows "(\<forall>keyPath. generateSubscribe nextFields None keyPath () = (Inr (getIn nextFields keyPath), ()))
       \<and> deliver_change [(lid, ChangeObserver tp ps rx res fp)] tp prev nid nxt sv frm w =
           (if list_ex (\<lambda>propName. \<not> strict_eq (map_get prev propName) (map_get nxt propName))
                 (tracked ps)
            then w\<lparr>nextOid := h,
                   trace := trace w @ [UpdateField (fieldPath fp) [(rx, v)]] @
                     (if truthy (if sv = Undefined then Bool True else sv)
                      then [ValidateField
                              \<lparr>force = True, vFieldPath = fieldPath fp, vFieldProps = updated,
                               forceProps = True, vFields = nextFields\<rparr>]
                      else [])\<rparr>
            else w)"
proof -
  have q: "qualifies ps prev nxt =
             list_ex (\<lambda>propName. \<not> strict_eq (map_get prev propName) (map_get nxt propName))
               (tracked ps)"
    by (simp add: qualifies_def predicate_def)
  have "observer_handler tp rx res fp frm \<lparr>nextContextProps = MapV nid nxt, shouldValidate = sv\<rparr> w =
          w\<lparr>nextOid := h,
            trace := trace w @ [UpdateField (fieldPath fp) [(rx, v)]] @
             (if truthy (if sv = Undefined then Bool True else sv)
              then [ValidateField
                      \<lparr>force = True, vFieldPath = fieldPath fp, vFieldProps = updated,
                       forceProps = True, vFields = nextFields\<rparr>]
              else [])\<rparr>"
    using observer_handler_success [of frm tp "\<lparr>nextContextProps = MapV nid nxt, shouldValidate = sv\<rparr>"
        w nextFields h res fp v rx updated] assms
    by simp
  then show ?thesis
    by (simp add: generateSubscribe_plain q)
qed

theorem change_handler_effects_witness:
  "setIn (state_fields options_form) [''a''] (MapV (Given 5) [(''value'', MapV (Given 4) [])]) 0
     = (Inr (MapV (Made 0) [(''a'', MapV (Given 5) [(''value'', MapV (Given 4) [])])]), 1) \<and>
   deliver_change [(0, ChangeObserver [''a''] (Some [''value'']) ''label'' example_resolver
                         example_subscriber)]
       [''a''] [(''value'', MapV (Given 3) [])] (Given 5) [(''value'', MapV (Given 4) [])]
       Undefined options_form idle_world =
     \<lparr>listeners = [], nextId = 0, nextOid = 1,
      trace =
        [UpdateField [''b''] [(''label'', MapV (Given 4) [])],
         ValidateField
           \<lparr>force = True, vFieldPath = [''b''],
            vFieldProps = MapV (Given 9) [(''label'', MapV (Given 4) [])],
            forceProps = True,
            vFields = MapV (Made 0) [(''a'', MapV (Given 5) [(''value'', MapV (Given 4) [])])]\<rparr>]\<rparr> \<and>
   deliver_change [(0, ChangeObserver [''a''] (Some [''value'']) ''label'' example_resolver
                         example_subscriber)]
       [''a''] [(''value'', MapV (Given 3) [])] (Given 5) [(''value'', MapV (Given 3) [])]
       Undefined options_form idle_world = idle_world"
proof -
  have s: "setIn (state_fields options_form) [''a'']
             (MapV (Given 5) [(''value'', MapV (Given 4) [])]) (nextOid idle_world)
     = (Inr (MapV (Made 0) [(''a'', MapV (Given 5) [(''value'', MapV (Given 4) [])])]), 1)"
    by (simp add: setIn_def options_form_def idle_world_def)
  have r: "run (generateSubscribe
                  (MapV (Made 0) [(''a'', MapV (Given 5) [(''value'', MapV (Given 4) [])])]) None)
             (dispatch example_resolver
                \<lparr>argFieldProps = PlainProps (fieldPath example_subscriber) (props example_subscriber),
                 argForm = options_form\<rparr>
                (formContext options_form)) () = (Inr (MapV (Given 4) []), ())"
    by (simp add: generateSubscribe_def dispatch_def example_resolver_def getIn_def)
  have u: "updateField options_form (fieldPath example_subscriber) [(''label'', MapV (Given 4) [])]
             = Fulfilled (MapV (Given 9) [(''label'', MapV (Given 4) [])])"
    by (simp add: options_form_def)
  have s': "setIn (state_fields options_form) [''a'']
             (MapV (Given 5) [(''value'', MapV (Given 3) [])]) (nextOid idle_world)
     = (Inr (MapV (Made 0) [(''a'', MapV (Given 5) [(''value'', MapV (Given 3) [])])]), 1)"
    by (simp add: setIn_def options_form_def idle_world_def)
  have r': "run (generateSubscribe
                  (MapV (Made 0) [(''a'', MapV (Given 5) [(''value'', MapV (Given 3) [])])]) None)
             (dispatch example_resolver
                \<lparr>argFieldProps = PlainProps (fieldPath example_subscriber) (props example_subscriber),
                 argForm = options_form\<rparr>
                (formContext options_form)) () = (Inr (MapV (Given 3) []), ())"
    by (simp add: generateSubscribe_def dispatch_def example_resolver_def getIn_def)
  have u': "updateField options_form (fieldPath example_subscriber) [(''label'', MapV (Given 3) [])]
             = Fulfilled (MapV (Given 9) [(''label'', MapV (Given 3) [])])"
    by (simp add: options_form_def)
  have one: "deliver_change [(0, ChangeObserver [''a''] (Some [''value'']) ''label''
                         example_resolver example_subscriber)]
       [''a''] [(''value'', MapV (Given 3) [])] (Given 5) [(''value'', MapV (Given 4) [])]
       Undefined options_form idle_world =
     \<lparr>listeners = [], nextId = 0, nextOid = 1,
      trace =
        [UpdateField [''b''] [(''label'', MapV (Given 4) [])],
         ValidateField
           \<lparr>force = True, vFieldPath = [''b''],
            vFieldProps = MapV (Given 9) [(''label'', MapV (Given 4) [])],
            forceProps = True,
            vFields = MapV (Made 0) [(''a'', MapV (Given 5) [(''value'', MapV (Given 4) [])])]\<rparr>]\<rparr>"
    using change_handler_effects [OF s r u, of 0 "Some [''value'']"
        "[(''value'', MapV (Given 3) [])]" Undefined, THEN conjunct2]
    by (simp add: tracked_def map_get_def idle_world_def example_subscriber_def)
  have two: "deliver_change [(0, ChangeObserver [''a''] (Some [''value'']) ''label''
                         example_resolver example_subscriber)]
       [''a''] [(''value'', MapV (Given 3) [])] (Given 5) [(''value'', MapV (Given 3) [])]
       Undefined options_form idle_world = idle_world"
    using change_handler_effects [OF s' r' u', of 0 "Some [''value'']"
        "[(''value'', MapV (Given 3) [])]" Undefined, THEN conjunct2]
    by (simp add: tracked_def map_get_def)
  from s one two show ?thesis by (simp add: idle_world_def)
qed

text \<open>
  Claim C4 as stated fails where it says the resolver's result is awaited: for a
  resolver that returns a deferred value, the patch handed to \<open>updateField\<close> holds the
  deferred value itself, not the value it fulfils with.
\<close>

theorem change_handler_counterexample:
  "qualifies (Some [''value'']) [(''value'', Str ''x'')] [(''value'', Str ''y'')] \<and>
   awaited (Deferred (Given 7) (Str ''y'')) = Str ''y'' \<and>
   deliver_change [(0, ChangeObserver [''a''] (Some [''value'']) ''label'' deferred_resolver
                         example_subscriber)]
       [''a''] [(''value'', Str ''x'')] (Given 5) [(''value'', Str ''y'')] Undefined example_form
       idle_world =
     \<lparr>listeners = [], nextId = 0, nextOid = 1,
      trace =
        [UpdateField [''b''] [(''label'', Deferred (Given 7) (Str ''y''))],
         ValidateField
           \<lparr>force = True, vFieldPath = [''b''],
            vFieldProps = MapV (Given 9) [(''label'', Deferred (Given 7) (Str ''y''))],
            forceProps = True,
            vFields = MapV (Made 0) [(''a'', MapV (Given 5) [(''value'', Str ''y'')])]\<rparr>]\<rparr> \<and>
   UpdateField [''b''] [(''label'', Str ''y'')]
     \<notin> set (trace (deliver_change [(0, ChangeObserver [''a''] (Some [''value'']) ''label''
                                  deferred_resolver example_subscriber)]
              [''a''] [(''value'', Str ''x'')] (Given 5) [(''value'', Str ''y'')] Undefined
              example_form idle_world))"
  by (simp add: qualifies_def tracked_def predicate_def map_get_def observer_handler_def Let_def
      setIn_def example_form_def example_fields_def generateSubscribe_def dispatch_def
      deferred_resolver_def getIn_def example_subscriber_def idle_world_def)

section \<open>The delegated binder\<close>

text \<open>
  Claim C2. The handler of a delegated binder removes its own registration listener as
  its first action, before the console output and the re-analysis; after the handler
  the listener is no longer registered; and over any sequence of later emissions and
  changes the handler body of that binder runs at most once.
\<close>

theorem delegated_binder_fires_at_most_once:
  assumes "ids_fresh w"
    and "(lid, DelegatedBinder ev tp gp rx res fp) \<in> set (listeners w)"
    and "executions lid w = 0"
  shows "(\<exists>rest. trace (snd (delegated_handler lid tp gp rx res fp frm payload w))
                   = trace w @ RemoveListener lid # rest)
       \<and> lid \<notin> fst ` set (listeners (snd (delegated_handler lid tp gp rx res fp frm payload w)))
       \<and> executions lid (run_events evs w) \<le> 1"
proof -
  let ?w' = "snd (delegated_handler lid tp gp rx res fp frm payload w)"
  have lt: "lid < nextId w"
    using assms(1,2) by (auto simp: ids_fresh_def list_all_iff)
  from delegated_handler_shape [of lid tp gp rx res fp frm payload w lid]
  obtain es extra where tr: "trace ?w' = trace w @ [RemoveListener lid, LogDelegated] @ es"
    and ls: "listeners ?w' = filter (\<lambda>il. fst il \<noteq> lid) (listeners w) @ extra"
    and ex: "list_all (\<lambda>il. fst il = nextId w \<and> fst il < nextId ?w') extra" by blast
  have first: "\<exists>rest. trace ?w' = trace w @ RemoveListener lid # rest"
    using tr by simp
  have "lid \<notin> fst ` set extra"
    using ex lt by (induction extra) auto
  then have gone: "lid \<notin> fst ` set (listeners ?w')"
    unfolding ls by (simp only: set_append image_Un ids_filter) simp
  have "executions lid (run_events evs w) + pending lid (run_events evs w)
          = executions lid w + pending lid w"
    using assms(1) lt by (rule run_events_potential)
  moreover have "pending lid w = 1"
    using assms(2) by (force simp: pending_def)
  ultimately have "executions lid (run_events evs w) \<le> 1"
    using assms(3) by simp
  with first gone show ?thesis by blast
qed

theorem delegated_binder_fires_at_most_once_witness:
  "ids_fresh pending_world \<and>
   (0, DelegatedBinder ''aRegistered'' [''a''] ''a'' ''label'' example_resolver example_subscriber)
      \<in> set (listeners pending_world) \<and>
   executions 0 pending_world = 0 \<and>
   executions 0 (run_events
       [RegisteredEvent ''aRegistered'' example_form (MapV (Given 1) [(''value'', Str ''x'')]),
        RegisteredEvent ''aRegistered'' example_form (MapV (Given 1) [(''value'', Str ''y'')])]
       pending_world) \<le> 1"
proof -
  have h1: "ids_fresh pending_world"
    by (simp add: ids_fresh_def pending_world_def)
  have h2: "(0, DelegatedBinder ''aRegistered'' [''a''] ''a'' ''label'' example_resolver
               example_subscriber) \<in> set (listeners pending_world)"
    by (simp add: pending_world_def)
  have h3: "executions 0 pending_world = 0"
    by (simp add: executions_def pending_world_def)
  from delegated_binder_fires_at_most_once [OF h1 h2 h3] h1 h2 h3 show ?thesis by blast
qed

text \<open>
  Claim C6 at a failing input. Field \<open>b\<close> subscribed while its value was empty; the user
  has typed since, and when \<open>a\<close> registers the tree holds \<open>b\<close> with the value \<open>typed\<close>.
  The handler of the binder reads the value from the properties it captured when \<open>b\<close>
  subscribed (line 173), not from the form's state as it does for the tree two lines
  above: \<open>shouldValidate\<close> is false, and after the one \<open>updateField\<close> call with the
  recomputed value there is no \<open>validateField\<close> call, although the subscriber holds a
  non-empty value. Where the captured properties have the value (\<open>filled_world\<close>), the
  same event gives the \<open>validateField\<close> call. In both runs the binder is replaced by one
  change observer, which gets the registered field's properties as one event.
\<close>

theorem stale_value_skips_validation:
  "getIn (state_fields typed_form) [''b'', ''value''] = Str ''typed'' \<and>
   truthy (Str ''typed'') \<and>
   emit_registered ''aRegistered'' typed_form (MapV (Given 1) [(''value'', Str ''x'')])
       pending_world =
     (None,
      \<lparr>listeners = [(1, ChangeObserver [''a''] (Some [''value'']) ''label'' example_resolver
                           example_subscriber)],
       nextId = 2, nextOid = 0,
       trace = [RemoveListener 0, LogDelegated, UpdateField [''b''] [(''label'', Str ''x'')]]\<rparr>) \<and>
   emit_registered ''aRegistered'' typed_form (MapV (Given 1) [(''value'', Str ''x'')])
       filled_world =
     (None,
      \<lparr>listeners = [(1, ChangeObserver [''a''] (Some [''value'']) ''label'' example_resolver
                           filled_subscriber)],
       nextId = 2, nextOid = 0,
       trace = [RemoveListener 0, LogDelegated, UpdateField [''b''] [(''label'', Str ''x'')],
                ValidateField
                  \<lparr>force = True, vFieldPath = [''b''],
                   vFieldProps = MapV (Given 9) [(''label'', Str ''x'')],
                   forceProps = True, vFields = state_fields typed_form\<rparr>]\<rparr>)"
proof -
  have g: "getIn (state_fields typed_form) [''b'', ''value''] = Str ''typed''"
    by (simp add: typed_form_def getIn_def)
  have a: "analyzeResolver ''label'' example_resolver fp (state_fields typed_form)
       typed_form [RemoveListener 0, LogDelegated]
     = (Inr ([(''a'', [''value''])], Str ''x''), [RemoveListener 0, LogDelegated])"
    if "fieldPath fp = [''b'']" for fp
    using that
    by (simp add: generateSubscribe_def track_def Let_def warn_def
        hasIn_def getIn_def prevProps_of_def a_not_inherited analyzeResolver_def
        example_resolver_def dispatch_def typed_form_def)
  have s: "setIn (state_fields typed_form) [''a''] (MapV (Given 1) [(''value'', Str ''x'')]) 0
             = (Inr (state_fields typed_form), 0)"
    by (simp add: setIn_def typed_form_def)
  have r: "run (generateSubscribe (state_fields typed_form) None)
             (dispatch example_resolver
                \<lparr>argFieldProps = PlainProps (fieldPath fp) (props fp), argForm = typed_form\<rparr>
                (formContext typed_form)) () = (Inr (Str ''x''), ())" for fp
    by (simp add: generateSubscribe_def dispatch_def example_resolver_def getIn_def
        typed_form_def)
  have u: "updateField typed_form [''b''] [(''label'', Str ''x'')]
             = Fulfilled (MapV (Given 9) [(''label'', Str ''x'')])"
    by (simp add: typed_form_def)
  have one: "emit_registered ''aRegistered'' typed_form (MapV (Given 1) [(''value'', Str ''x'')])
       pending_world =
     (None,
      \<lparr>listeners = [(1, ChangeObserver [''a''] (Some [''value'']) ''label'' example_resolver
                           example_subscriber)],
       nextId = 2, nextOid = 0,
       trace = [RemoveListener 0, LogDelegated, UpdateField [''b''] [(''label'', Str ''x'')]]\<rparr>)"
    using a [of example_subscriber] s r [of example_subscriber] u
    by (simp add: emit_registered_def pending_world_def delegated_handler_def Let_def
        createObserver_def observer_handler_def example_subscriber_def map_get_def)
  have two: "emit_registered ''aRegistered'' typed_form (MapV (Given 1) [(''value'', Str ''x'')])
       filled_world =
     (None,
      \<lparr>listeners = [(1, ChangeObserver [''a''] (Some [''value'']) ''label'' example_resolver
                           filled_subscriber)],
       nextId = 2, nextOid = 0,
       trace = [RemoveListener 0, LogDelegated, UpdateField [''b''] [(''label'', Str ''x'')],
                ValidateField
                  \<lparr>force = True, vFieldPath = [''b''],
                   vFieldProps = MapV (Given 9) [(''label'', Str ''x'')],
                   forceProps = True, vFields = state_fields typed_form\<rparr>]\<rparr>)"
    using a [of filled_subscriber] s r [of filled_subscriber] u
    by (simp add: emit_registered_def filled_world_def delegated_handler_def Let_def
        createObserver_def observer_handler_def filled_subscriber_def map_get_def)
  from g one two show ?thesis by simp
qed

text \<open>
  Claim C9. When the fresh map of the re-analysis has no entry for the delegated target
  path, the handler still ends without an exception, the change observer is created
  with that missing list, the synthetic event is handed to its handler as for any other
  list, and no later change of the target field qualifies: the observer never runs the
  resolver again.
\<close>

theorem vanished_dependency_gives_inert_observer:
  assumes "analyzeResolver rx res fp (state_fields frm) frm
             (trace w @ [RemoveListener lid, LogDelegated]) = (Inr (tm, v0), t)"
    and "tracked (map_of tm gp) = []"
  shows "delegated_handler lid tp gp rx res fp frm payload w =
           (None,
            observer_handler tp rx res fp frm
              \<lparr>nextContextProps = payload,
               shouldValidate = Bool (truthy (map_get (props fp) (valuePropName fp)))\<rparr>
              \<lparr>listeners = filter (\<lambda>il. fst il \<noteq> lid) (listeners w)
                   @ [(nextId w, ChangeObserver tp (map_of tm gp) rx res fp)],
               nextId = Suc (nextId w), nextOid = nextOid w, trace = t\<rparr>)
       \<and> listeners (snd (delegated_handler lid tp gp rx res fp frm payload w))
           = filter (\<lambda>il. fst il \<noteq> lid) (listeners w)
               @ [(nextId w, ChangeObserver tp (map_of tm gp) rx res fp)]
       \<and> nextId (snd (delegated_handler lid tp gp rx res fp frm payload w)) = Suc (nextId w)
       \<and> (\<forall>path prev nid nxt sv frm' w'.
             deliver_change [(nextId w, ChangeObserver tp (map_of tm gp) rx res fp)]
               path prev nid nxt sv frm' w' = w')"
proof -
  let ?ev = "\<lparr>nextContextProps = payload,
              shouldValidate = Bool (truthy (map_get (props fp) (valuePropName fp)))\<rparr>"
  let ?w3 = "\<lparr>listeners = filter (\<lambda>il. fst il \<noteq> lid) (listeners w)
                   @ [(nextId w, ChangeObserver tp (map_of tm gp) rx res fp)],
               nextId = Suc (nextId w), nextOid = nextOid w, trace = t\<rparr>"
  have d: "delegated_handler lid tp gp rx res fp frm payload w
             = (None, observer_handler tp rx res fp frm ?ev ?w3)"
    using assms(1) by (rule delegated_handler_completed)
  obtain es h where
    o: "observer_handler tp rx res fp frm ?ev ?w3 = ?w3\<lparr>nextOid := h, trace := trace ?w3 @ es\<rparr>"
    using observer_handler_shape [of tp rx res fp frm ?ev ?w3] by blast
  have inert: "deliver_change [(nextId w, ChangeObserver tp (map_of tm gp) rx res fp)]
               path prev nid nxt sv frm' w' = w'" for path prev nid nxt sv frm' w'
    using assms(2) by (simp add: qualifies_def)
  from d o inert show ?thesis by simp
qed

theorem vanished_dependency_gives_inert_observer_witness:
  "analyzeResolver ''label'' example_resolver example_subscriber (state_fields bare_form)
       bare_form (trace pending_world @ [RemoveListener 0, LogDelegated])
     = (Inr ([], Undefined),
        [RemoveListener 0, LogDelegated,
         Warn invalid_prop_name_msg [''label'', ''b'', ''value'']]) \<and>
   tracked (map_of ([] :: (string \<times> string list) list) ''a'') = [] \<and>
   fst (delegated_handler 0 [''a''] ''a'' ''label'' example_resolver example_subscriber bare_form
          (MapV (Given 1) [(''name'', Str ''n'')]) pending_world) = None \<and>
   listeners (snd (delegated_handler 0 [''a''] ''a'' ''label'' example_resolver
                     example_subscriber bare_form (MapV (Given 1) [(''name'', Str ''n'')])
                     pending_world))
     = [(1, ChangeObserver [''a''] None ''label'' example_resolver example_subscriber)] \<and>
   deliver_change [(1, ChangeObserver [''a''] None ''label'' example_resolver example_subscriber)]
       [''a''] [(''name'', Str ''n'')] (Given 5) [(''name'', Str ''m'')] Undefined bare_form
       idle_world = idle_world"
proof -
  have a: "analyzeResolver ''label'' example_resolver example_subscriber (state_fields bare_form)
       bare_form (trace pending_world @ [RemoveListener 0, LogDelegated])
     = (Inr ([], Undefined),
        [RemoveListener 0, LogDelegated,
         Warn invalid_prop_name_msg [''label'', ''b'', ''value'']])"
    by (simp add: generateSubscribe_def track_def Let_def warn_def
        hasIn_def getIn_def analyzeResolver_def
        example_resolver_def dispatch_def example_subscriber_def bare_form_def
        pending_world_def)
  have b: "tracked (map_of ([] :: (string \<times> string list) list) ''a'') = []"
    by (simp add: tracked_def)
  note th = vanished_dependency_gives_inert_observer
    [OF a b, where tp = "[''a'']" and payload = "MapV (Given 1) [(''name'', Str ''n'')]"]
  have inert: "deliver_change
       [(1, ChangeObserver [''a''] None ''label'' example_resolver example_subscriber)]
       [''a''] [(''name'', Str ''n'')] (Given 5) [(''name'', Str ''m'')] Undefined bare_form
       idle_world = idle_world"
    using th [THEN conjunct2, THEN conjunct2, THEN conjunct2, rule_format,
        of "[''a'']" "[(''name'', Str ''n'')]" "Given 5" "[(''name'', Str ''m'')]" Undefined
           bare_form idle_world]
    by (simp add: pending_world_def)
  from th [THEN conjunct2, THEN conjunct1] th [THEN conjunct1] a b inert show ?thesis
    by (simp add: pending_world_def)
qed

end
